theory Spec2Isabelle
  imports Complex_Main "HOL-Library.Sublist" "HOL-Library.Log_Nat"
begin

section \<open>Data model\<close>

text \<open>
  The replay engine (\<^verbatim>\<open>src/services/ReplayEngine.ts\<close>), the database service it reads
  from (\<^verbatim>\<open>getLogsBySession\<close>, \<^verbatim>\<open>getLogCount\<close>) and the two bounded inspector buffers
  (\<^verbatim>\<open>addInspectorMessage\<close> of the app store, the \<^verbatim>\<open>mcp-traffic\<close> listener of the
  inspector panel) are embedded as functions on explicit state.

  Numbers: a JavaScript number that holds a clock reading, a timestamp, a speed or a
  seek position is the real number it denotes, and every addition, subtraction,
  multiplication and division of the code rounds its exact result to the nearest
  double, as IEEE 754 binary64 arithmetic does. Counters and cursors, which the code
  only ever sets to non-negative integers, are naturals. The quotient reported to
  \<^verbatim>\<open>onProgress\<close> keeps JavaScript's results for a zero divisor.
\<close>

subsection \<open>Double arithmetic\<close>

definition pow2 :: "int \<Rightarrow> real" where
  "pow2 k = (if 0 \<le> k then 2 ^ nat k else 1 / 2 ^ nat (- k))"

text \<open>The binary exponent of a non-zero number: \<open>pow2 e \<le> \<bar>x\<bar> < pow2 (e + 1)\<close>.\<close>

definition binade :: "real \<Rightarrow> int" where
  "binade x =
     (let a = \<bar>x\<bar>
      in if 1 \<le> a then bitlen \<lfloor>a\<rfloor> - 1 else - bitlen (\<lceil>1 / a\<rceil> - 1))"

text \<open>Rounding to the nearest integer, a tie to the even one.\<close>

definition round_ties_even :: "real \<Rightarrow> int" where
  "round_ties_even y =
     (let f = \<lfloor>y\<rfloor>; r = y - of_int f
      in if r < 1 / 2 then f else if 1 / 2 < r then f + 1 else if even f then f else f + 1)"

text \<open>
  Rounding to binary64, round-to-nearest, ties to even: 53 significant bits, and below
  \<open>pow2 (- 1022)\<close> the fixed spacing \<open>pow2 (- 1074)\<close> of the subnormal numbers.
  Overflow to \<^verbatim>\<open>Infinity\<close> (results of magnitude \<open>pow2 1024\<close> and more) and \<^verbatim>\<open>NaN\<close>
  operands are not modelled.
\<close>

definition round_double :: "real \<Rightarrow> real" where
  "round_double x =
     (if x = 0 then 0
      else let q = pow2 (max (binade x) (- 1022) - 52)
           in of_int (round_ties_even (x / q)) * q)"

text \<open>A number that is a double: rounding leaves it as it is.\<close>

definition representable :: "real \<Rightarrow> bool" where
  "representable x = (round_double x = x)"

text \<open>The four operations of JavaScript on numbers (the divisor is not 0 where the code divides).\<close>

definition dbl_add :: "real \<Rightarrow> real \<Rightarrow> real" where
  "dbl_add a b = round_double (a + b)"

definition dbl_sub :: "real \<Rightarrow> real \<Rightarrow> real" where
  "dbl_sub a b = round_double (a - b)"

definition dbl_mul :: "real \<Rightarrow> real \<Rightarrow> real" where
  "dbl_mul a b = round_double (a * b)"

definition dbl_div :: "real \<Rightarrow> real \<Rightarrow> real" where
  "dbl_div a b = round_double (a / b)"

subsection \<open>The log store\<close>

text \<open>\<^verbatim>\<open>interface SystemLog\<close>. The payload is kept as its JSON text.\<close>

record SystemLog =
  log_id :: nat
  session_id :: string
  timestamp :: real
  level :: string
  category :: string
  message :: "string option"
  payload :: string
  trace_id :: "string option"
  server_name :: "string option"
  direction :: "string option"

text \<open>
  The SQLite database behind \<^verbatim>\<open>tauri-plugin-sql\<close> is not part of the repository. Its
  state is the list of the rows of table \<^verbatim>\<open>system_logs\<close> in insertion order. Every read
  succeeds; a store that rejects a query is not modelled.
\<close>

record database =
  system_logs :: "SystemLog list"

text \<open>
  Modelled from the spec: the store's execution of \<^verbatim>\<open>ORDER BY timestamp ASC\<close>, which
  rests on the SQL engine and on the declaration of the table and its indexes, neither
  of them among the sources. The spec has the store return a session's events "in
  ascending timestamp order", "ties broken by insertion order": the rows are sorted by
  timestamp by a stable sort of the rows in insertion order.
\<close>

definition sql_order_by_timestamp :: "SystemLog list \<Rightarrow> SystemLog list" where
  "sql_order_by_timestamp rows = sort_key timestamp rows"

text \<open>
  Modelled from the spec: the id the store gives a new row, which the repository leaves
  to the table's declaration. The spec has ids "monotonically increasing" with
  insertion: the new id is one more than the largest id in the table.
\<close>

definition assigned_id :: "SystemLog list \<Rightarrow> nat" where
  "assigned_id rows = Suc (fold max (map log_id rows) 0)"

text \<open>
  \<^verbatim>\<open>insertLog\<close>, \<^verbatim>\<open>deleteSession\<close> and \<^verbatim>\<open>clearAllLogs\<close> on table \<^verbatim>\<open>system_logs\<close> (table
  \<^verbatim>\<open>sessions\<close> is not modelled). \<^verbatim>\<open>insertLog\<close> takes an entry without id; the \<open>log_id\<close>
  of the entry given here is ignored.
\<close>

definition empty_db :: database where
  "empty_db = \<lparr>system_logs = []\<rparr>"

definition insertLog :: "SystemLog \<Rightarrow> database \<Rightarrow> database" where
  "insertLog entry db =
     db\<lparr>system_logs := system_logs db @ [entry\<lparr>log_id := assigned_id (system_logs db)\<rparr>]\<rparr>"

definition deleteSession :: "string \<Rightarrow> database \<Rightarrow> database" where
  "deleteSession sid db =
     db\<lparr>system_logs := filter (\<lambda>r. session_id r \<noteq> sid) (system_logs db)\<rparr>"

definition clearAllLogs :: "database \<Rightarrow> database" where
  "clearAllLogs db = db\<lparr>system_logs := []\<rparr>"

text \<open>
  \<^verbatim>\<open>LIMIT l OFFSET o\<close> as SQLite evaluates it: a negative limit is no limit, a negative
  offset is offset 0.
\<close>

definition sql_limit_offset :: "int \<Rightarrow> int \<Rightarrow> 'a list \<Rightarrow> 'a list" where
  "sql_limit_offset l ofs xs =
     (let ys = drop (nat ofs) xs in if l < 0 then ys else take (nat l) ys)"

text \<open>\<^verbatim>\<open>WHERE session_id = $1\<close>\<close>

definition where_session :: "string \<Rightarrow> SystemLog list \<Rightarrow> SystemLog list" where
  "where_session sid rows = filter (\<lambda>r. session_id r = sid) rows"

text \<open>
  \<^verbatim>\<open>getLogsBySession(sessionId, limit, offset)\<close>. The final \<^verbatim>\<open>logs.map\<close> re-parses the
  payload column and copies every other field; on the JSON-text representation of the
  payload it changes nothing.
\<close>

definition getLogsBySession :: "database \<Rightarrow> string \<Rightarrow> int \<Rightarrow> int \<Rightarrow> SystemLog list" where
  "getLogsBySession db sessionId limit ofs =
     sql_limit_offset limit ofs
       (sql_order_by_timestamp (where_session sessionId (system_logs db)))"

text \<open>\<^verbatim>\<open>getLogCount(sessionId)\<close>: \<^verbatim>\<open>SELECT COUNT(*)\<close> over the session's rows.\<close>

definition getLogCount :: "database \<Rightarrow> string \<Rightarrow> nat" where
  "getLogCount db sessionId = length (where_session sessionId (system_logs db))"

text \<open>The events of a session in the order the store returns them.\<close>

definition session_events :: "database \<Rightarrow> string \<Rightarrow> SystemLog list" where
  "session_events db sessionId =
     sql_order_by_timestamp (where_session sessionId (system_logs db))"

text \<open>Insertion order among equal timestamps: the tie rule of the data model.\<close>

definition ties_by_id :: "SystemLog list \<Rightarrow> bool" where
  "ties_by_id xs =
     sorted_wrt (\<lambda>a b. timestamp a = timestamp b \<longrightarrow> log_id a < log_id b) xs"

section \<open>Inspector buffers\<close>

text \<open>\<^verbatim>\<open>Array.prototype.slice(-n)\<close> for a positive \<open>n\<close>: the last \<open>n\<close> elements, or all.\<close>

definition slice_last :: "nat \<Rightarrow> 'a list \<Rightarrow> 'a list" where
  "slice_last n xs = drop (length xs - n) xs"

datatype MessageDirection = request | response

record InspectorMessage =
  msg_id :: string
  msg_timestamp :: string
  msg_direction :: MessageDirection
  serverName :: string
  msg_payload :: string
  msg_method :: "string option"
  durationMs :: "real option"

datatype ActiveView = servers_view | inspector_view | registry_view | settings_view

text \<open>The part of \<^verbatim>\<open>AppState\<close> without the server table, which no action below reads.\<close>

record AppState =
  sidebarOpen :: bool
  activeView :: ActiveView
  selectedServer :: "string option"
  inspectorActive :: bool
  inspectorMessages :: "InspectorMessage list"

definition addInspectorMessage :: "InspectorMessage \<Rightarrow> AppState \<Rightarrow> AppState" where
  "addInspectorMessage m st =
     st\<lparr>inspectorMessages := slice_last 500 (inspectorMessages st @ [m])\<rparr>"

text \<open>
  The updater of the inspector panel's \<^verbatim>\<open>mcp-traffic\<close> listener:
  \<^verbatim>\<open>setMessages((prev) => [...prev.slice(-499), msg])\<close>.
\<close>

definition panel_add_message :: "'m \<Rightarrow> 'm list \<Rightarrow> 'm list" where
  "panel_add_message msg prev = slice_last 499 prev @ [msg]"

section \<open>Replay engine\<close>

datatype ReplayStatus = Idle | Playing | Paused | Ended

text \<open>
  A JavaScript number as \<^verbatim>\<open>onProgress\<close> receives it: \<^verbatim>\<open>emittedCount / totalLogs\<close> is
  \<^verbatim>\<open>NaN\<close> for 0/0 and \<^verbatim>\<open>Infinity\<close> for n/0.
\<close>

datatype jsnum = Num real | Infinity | NaN

definition js_div :: "nat \<Rightarrow> nat \<Rightarrow> jsnum" where
  "js_div a b =
     (if b = 0 then (if a = 0 then NaN else Infinity) else Num (dbl_div (real a) (real b)))"

text \<open>The calls the engine makes on its three callbacks, in the order it makes them.\<close>

datatype callback = OnLog SystemLog | OnStatusChange ReplayStatus | OnProgress jsnum

fun onLog_calls :: "callback list \<Rightarrow> SystemLog list" where
  "onLog_calls [] = []"
| "onLog_calls (OnLog l # cs) = l # onLog_calls cs"
| "onLog_calls (OnStatusChange _ # cs) = onLog_calls cs"
| "onLog_calls (OnProgress _ # cs) = onLog_calls cs"

fun onProgress_calls :: "callback list \<Rightarrow> jsnum list" where
  "onProgress_calls [] = []"
| "onProgress_calls (OnProgress x # cs) = x # onProgress_calls cs"
| "onProgress_calls (OnLog _ # cs) = onProgress_calls cs"
| "onProgress_calls (OnStatusChange _ # cs) = onProgress_calls cs"

text \<open>
  The fields of \<^verbatim>\<open>class ReplayEngine\<close>. \<open>rafHandle\<close> tells whether a frame request is
  held (\<^verbatim>\<open>rafHandle !== null\<close>). \<open>inFlight\<close> is the suspended \<^verbatim>\<open>fetchNextBatch\<close> that
  \<^verbatim>\<open>tick\<close> started without awaiting it, with the offset it passed to the store; the
  flag \<^verbatim>\<open>isFetching\<close> is set exactly while there is one. \<open>calls\<close> records the callback
  calls made so far.
\<close>

record ReplayEngine =
  sessionId :: string
  batchSize :: int
  refetchThreshold :: int
  status :: ReplayStatus
  speed :: real
  queue :: "SystemLog list"
  offset :: nat
  totalLogs :: nat
  emittedCount :: nat
  startTime :: real
  simulationTimeStart :: real
  pausedAt :: real
  rafHandle :: bool
  inFlight :: "nat option"
  calls :: "callback list"

definition isFetching :: "ReplayEngine \<Rightarrow> bool" where
  "isFetching s = (inFlight s \<noteq> None)"

text \<open>The constructor, with the defaults of the two optional numbers.\<close>

definition new_ReplayEngine :: "string \<Rightarrow> int option \<Rightarrow> int option \<Rightarrow> ReplayEngine" where
  "new_ReplayEngine sid bs rt =
     \<lparr>sessionId = sid,
      batchSize = (case bs of None \<Rightarrow> 1000 | Some b \<Rightarrow> b),
      refetchThreshold = (case rt of None \<Rightarrow> 200 | Some t \<Rightarrow> t),
      status = Idle, speed = 1, queue = [], offset = 0, totalLogs = 0, emittedCount = 0,
      startTime = 0, simulationTimeStart = 0, pausedAt = 0,
      rafHandle = False, inFlight = None, calls = []\<rparr>"

definition setStatus :: "ReplayStatus \<Rightarrow> ReplayEngine \<Rightarrow> ReplayEngine" where
  "setStatus st s = s\<lparr>status := st, calls := calls s @ [OnStatusChange st]\<rparr>"

text \<open>
  \<^verbatim>\<open>await this.fetchNextBatch()\<close>, as \<^verbatim>\<open>start\<close> and \<^verbatim>\<open>seek\<close> call it: the caller waits
  for the store, so the call is one step. With a fetch in flight it returns at once.
\<close>

definition fetchNextBatch :: "database \<Rightarrow> ReplayEngine \<Rightarrow> ReplayEngine" where
  "fetchNextBatch db s =
     (if isFetching s then s
      else let logs = getLogsBySession db (sessionId s) (batchSize s) (int (offset s))
           in s\<lparr>queue := queue s @ logs, offset := offset s + length logs\<rparr>)"

text \<open>
  \<^verbatim>\<open>this.fetchNextBatch()\<close> without \<^verbatim>\<open>await\<close>, as \<^verbatim>\<open>tick\<close> calls it. The call runs to its
  first suspension: it sets the flag and hands \<^verbatim>\<open>this.offset\<close> to the store.
\<close>

definition fetchNextBatch_call :: "ReplayEngine \<Rightarrow> ReplayEngine" where
  "fetchNextBatch_call s = (if isFetching s then s else s\<lparr>inFlight := Some (offset s)\<rparr>)"

text \<open>
  The rest of that call, run when the store answers: the rows are pushed on the queue
  the engine has then, the cursor advances by their number, the flag is cleared.
\<close>

definition fetchNextBatch_settle :: "database \<Rightarrow> ReplayEngine \<Rightarrow> ReplayEngine" where
  "fetchNextBatch_settle db s =
     (case inFlight s of
        None \<Rightarrow> s
      | Some ofs \<Rightarrow>
          let logs = getLogsBySession db (sessionId s) (batchSize s) (int ofs)
          in s\<lparr>queue := queue s @ logs, offset := offset s + length logs, inFlight := None\<rparr>)"

text \<open>The \<^verbatim>\<open>while\<close> loop of \<^verbatim>\<open>tick\<close>.\<close>

function emit_ready :: "real \<Rightarrow> ReplayEngine \<Rightarrow> ReplayEngine" where
  "emit_ready targetTime s =
     (case queue s of
        [] \<Rightarrow> s
      | entry # rest \<Rightarrow>
          if timestamp entry \<le> targetTime
          then emit_ready targetTime
                 (s\<lparr>queue := rest,
                    calls := calls s @
                      [OnLog entry, OnProgress (js_div (emittedCount s + 1) (totalLogs s))],
                    emittedCount := emittedCount s + 1\<rparr>)
          else s)"
  by pat_completeness auto
termination
  by (relation "measure (\<lambda>(t, s). length (queue s))") auto

text \<open>
  The callback calls of that loop when it emits the events \<open>xs\<close>, starting from
  \<^verbatim>\<open>emittedCount\<close> \<open>e\<close> with \<^verbatim>\<open>totalLogs\<close> \<open>n\<close>: per event, \<^verbatim>\<open>onLog\<close> and then
  \<^verbatim>\<open>onProgress\<close> with the incremented count over the total.
\<close>

fun emit_calls :: "nat \<Rightarrow> nat \<Rightarrow> SystemLog list \<Rightarrow> callback list" where
  "emit_calls e n [] = []"
| "emit_calls e n (x # xs) =
     OnLog x # OnProgress (js_div (Suc e) n) # emit_calls (Suc e) n xs"

text \<open>\<^verbatim>\<open>tick\<close>, with the reading of \<^verbatim>\<open>performance.now()\<close> it takes.\<close>

definition tick :: "real \<Rightarrow> ReplayEngine \<Rightarrow> ReplayEngine" where
  "tick now s =
     (if status s \<noteq> Playing then s
      else
        let realElapsed = dbl_mul (dbl_sub now (startTime s)) (speed s);
            targetTime = dbl_add (simulationTimeStart s) realElapsed;
            s1 = emit_ready targetTime s;
            s2 = (if int (length (queue s1)) < refetchThreshold s1 \<and> \<not> isFetching s1
                  then fetchNextBatch_call s1 else s1)
        in if queue s2 = [] \<and> totalLogs s2 \<le> offset s2
           then setStatus Ended s2
           else s2\<lparr>rafHandle := True\<rparr>)"

text \<open>The end of \<^verbatim>\<open>start\<close>, from \<^verbatim>\<open>// Resume from pause\<close> on.\<close>

definition start_playing :: "real \<Rightarrow> real \<Rightarrow> ReplayEngine \<Rightarrow> ReplayEngine" where
  "start_playing now nowTick s =
     (let s1 = (if status s = Paused
                then let pauseDuration = dbl_sub now (pausedAt s)
                     in s\<lparr>startTime := dbl_add (startTime s) pauseDuration\<rparr>
                else s)
      in tick nowTick (setStatus Playing s1))"

text \<open>
  \<^verbatim>\<open>start\<close>. \<open>now\<close> is the clock reading \<^verbatim>\<open>start\<close> itself takes (the anchor from idle,
  the end of the pause from paused), \<open>nowTick\<close> the one of the \<^verbatim>\<open>tick\<close> it ends with.
  In the idle branch \<^verbatim>\<open>start\<close> first waits for \<^verbatim>\<open>getLogCount\<close>. The engine is idle
  then and no frame emits, but a fetch that was in flight before the call may get its
  answer during that wait: \<open>settled\<close> tells whether it does. The second wait is for
  \<^verbatim>\<open>start\<close>'s own fetch, which is made only when none is in flight.
\<close>

definition start ::
  "database \<Rightarrow> bool \<Rightarrow> real \<Rightarrow> real \<Rightarrow> ReplayEngine \<Rightarrow> ReplayEngine" where
  "start db settled now nowTick s =
     (if status s = Playing then s
      else if status s = Idle then
        (let s0 = s\<lparr>offset := 0, queue := [], emittedCount := 0\<rparr>;
             waited = (if settled then fetchNextBatch_settle db s0 else s0);
             s1 = waited\<lparr>totalLogs := getLogCount db (sessionId s)\<rparr>
         in if totalLogs s1 = 0 then setStatus Ended s1
            else
              let s2 = fetchNextBatch db s1
              in case queue s2 of
                   [] \<Rightarrow> setStatus Ended s2
                 | first # _ \<Rightarrow>
                     start_playing now nowTick
                       (s2\<lparr>simulationTimeStart := timestamp first, startTime := now\<rparr>))
      else start_playing now nowTick s)"

definition pause :: "real \<Rightarrow> ReplayEngine \<Rightarrow> ReplayEngine" where
  "pause now s =
     (if status s \<noteq> Playing then s
      else (setStatus Paused (s\<lparr>pausedAt := now\<rparr>))\<lparr>rafHandle := False\<rparr>)"

definition stop :: "ReplayEngine \<Rightarrow> ReplayEngine" where
  "stop s = setStatus Idle (s\<lparr>rafHandle := False, queue := [], offset := 0, emittedCount := 0\<rparr>)"

definition setSpeed :: "real \<Rightarrow> real \<Rightarrow> ReplayEngine \<Rightarrow> ReplayEngine" where
  "setSpeed multiplier now s =
     (if multiplier \<le> 0 then s
      else
        (if status s = Playing
         then let realElapsed = dbl_sub now (startTime s);
                  simElapsed = dbl_mul realElapsed (speed s)
              in s\<lparr>startTime := dbl_sub now (dbl_div simElapsed multiplier)\<rparr>
         else s)\<lparr>speed := multiplier\<rparr>)"

definition getSpeed :: "ReplayEngine \<Rightarrow> real" where
  "getSpeed s = speed s"

definition getStatus :: "ReplayEngine \<Rightarrow> ReplayStatus" where
  "getStatus s = status s"

text \<open>
  \<^verbatim>\<open>seek\<close>. Its clock readings, in the order the code takes them: \<open>nowPause\<close> in
  \<^verbatim>\<open>pause\<close>, \<open>nowAnchor\<close> after the fetch, \<open>nowStart\<close> and \<open>nowTick\<close> in the final
  \<^verbatim>\<open>start\<close>. That \<^verbatim>\<open>start\<close> finds the engine paused, so it waits for nothing.
\<close>

definition seek ::
  "database \<Rightarrow> real \<Rightarrow> real \<Rightarrow> real \<Rightarrow> real \<Rightarrow> real \<Rightarrow> ReplayEngine \<Rightarrow> ReplayEngine" where
  "seek db position nowPause nowAnchor nowStart nowTick s =
     (if position < 0 \<or> position > 1 then s
      else
        let wasPlaying = (status s = Playing);
            s1 = pause nowPause s;
            targetOffset = nat \<lfloor>dbl_mul (real (totalLogs s1)) position\<rfloor>;
            s2 = s1\<lparr>offset := targetOffset, emittedCount := targetOffset, queue := []\<rparr>;
            s3 = fetchNextBatch db s2;
            s4 = (case queue s3 of
                    [] \<Rightarrow> s3
                  | first # _ \<Rightarrow>
                      s3\<lparr>simulationTimeStart := timestamp first, startTime := nowAnchor\<rparr>);
            s5 = s4\<lparr>calls := calls s4 @ [OnProgress (Num position)]\<rparr>
        in if wasPlaying then start db False nowStart nowTick s5 else s5)"

text \<open>
  What happens to a playing engine between calls of its methods: a frame fires
  (\<^verbatim>\<open>tick\<close> with the clock reading it takes), or the store answers the fetch in flight.
\<close>

datatype step = Tick real | FetchSettled

fun run :: "database \<Rightarrow> step list \<Rightarrow> ReplayEngine \<Rightarrow> ReplayEngine" where
  "run db [] s = s"
| "run db (Tick now # es) s = run db es (tick now s)"
| "run db (FetchSettled # es) s = run db es (fetchNextBatch_settle db s)"

text \<open>The simulated clock of the scheduling loop at wall-clock time \<open>now\<close>.\<close>

definition target_simulated_time :: "real \<Rightarrow> ReplayEngine \<Rightarrow> real" where
  "target_simulated_time now s =
     dbl_add (simulationTimeStart s) (dbl_mul (dbl_sub now (startTime s)) (speed s))"

text \<open>
  The invariant of a replay that was started from idle with the callback history
  \<open>c0\<close>: the session's events, in stored order, split into those emitted since then,
  those in the queue and those not yet fetched; the counters count the first two parts;
  a fetch in flight was started at the present cursor; the engine is playing, or has
  ended with nothing left; and the last progress report, once an event was emitted, is
  the emitted count over the total.
\<close>

definition replay_inv :: "database \<Rightarrow> callback list \<Rightarrow> ReplayEngine \<Rightarrow> bool" where
  "replay_inv db c0 s =
     (\<exists>emitted rest.
        onLog_calls (calls s) = onLog_calls c0 @ emitted \<and>
        session_events db (sessionId s) = emitted @ queue s @ rest \<and>
        emittedCount s = length emitted \<and>
        offset s = length emitted + length (queue s) \<and>
        totalLogs s = length (session_events db (sessionId s)) \<and>
        (inFlight s = None \<or> inFlight s = Some (offset s)) \<and>
        (status s = Playing \<or> (status s = Ended \<and> queue s = [] \<and> rest = [])) \<and>
        (emitted = [] \<or>
         (onProgress_calls (calls s) \<noteq> [] \<and>
          last (onProgress_calls (calls s)) = js_div (length emitted) (totalLogs s))))"

section \<open>Example session\<close>

definition mk_log :: "nat \<Rightarrow> string \<Rightarrow> real \<Rightarrow> SystemLog" where
  "mk_log i sid ts =
     \<lparr>log_id = i, session_id = sid, timestamp = ts, level = ''INFO'', category = ''mcp'',
      message = None, payload = ''null'', trace_id = None, server_name = None,
      direction = None\<rparr>"

text \<open>Three events at 0, 100 and 250 ms.\<close>

definition demo_db :: database where
  "demo_db =
     \<lparr>system_logs = [mk_log 1 ''s'' 0, mk_log 2 ''s'' 100, mk_log 3 ''s'' 250]\<rparr>"

definition demo_engine :: ReplayEngine where
  "demo_engine = new_ReplayEngine ''s'' None None"

text \<open>The example engine while playing, after the read-ahead of its first tick settled.\<close>

definition demo_playing :: ReplayEngine where
  "demo_playing = run demo_db [FetchSettled] (start demo_db False 0 0 demo_engine)"

text \<open>
  The same engine started at clock reading 0.1 (the double nearest to it) instead of 0.
\<close>

definition demo_playing_late :: ReplayEngine where
  "demo_playing_late =
     run demo_db [FetchSettled]
       (start demo_db False (round_double (1 / 10)) (round_double (1 / 10)) demo_engine)"


text \<open>
  Four events at 0, 100, 200 and 300 ms, and an engine that reads them two at a time:
  started, then stopped while the read-ahead of its first tick is in flight.
\<close>

definition paged_db :: database where
  "paged_db =
     \<lparr>system_logs =
        [mk_log 1 ''s'' 0, mk_log 2 ''s'' 100, mk_log 3 ''s'' 200, mk_log 4 ''s'' 300]\<rparr>"

definition stopped_early :: ReplayEngine where
  "stopped_early = stop (start paged_db False 0 0 (new_ReplayEngine ''s'' (Some 2) None))"

text \<open>
  A table with two events of one timestamp, inserted after an event of a later one.
\<close>

definition tie_db :: database where
  "tie_db =
     insertLog (mk_log 0 ''s'' 5)
       (insertLog (mk_log 0 ''s'' 5) (insertLog (mk_log 0 ''s'' 7) empty_db))"


section \<open>Double arithmetic on small integers\<close>

lemma round_ties_even_of_int: "round_ties_even (of_int k) = k"
  by (simp add: round_ties_even_def)

lemma binade_of_int:
  assumes "n \<noteq> 0"
  shows "binade (of_int n) = bitlen \<bar>n\<bar> - 1"
proof -
  have "1 \<le> \<bar>real_of_int n\<bar>" using assms by (simp add: abs_if)
  moreover have "\<lfloor>\<bar>real_of_int n\<bar>\<rfloor> = \<bar>n\<bar>"
    by (metis floor_of_int of_int_abs)
  ultimately show ?thesis by (simp add: binade_def)
qed

lemma round_double_of_int:
  assumes "\<bar>n\<bar> < 9007199254740992"
  shows "round_double (of_int n) = of_int n"
proof (cases "n = 0")
  case True
  then show ?thesis by (simp add: round_double_def)
next
  case False
  let ?e = "bitlen \<bar>n\<bar> - 1"
  have pos: "0 < \<bar>n\<bar>" using False by simp
  have "\<bar>n\<bar> < 2 ^ nat 53" using assms by simp
  then have "bitlen \<bar>n\<bar> \<le> 53"
    by (simp add: bitlen_le_iff_power)
  moreover have "1 \<le> bitlen \<bar>n\<bar>"
    using pos bitlen_eq_zero_iff [of "\<bar>n\<bar>"] bitlen_nonneg [of "\<bar>n\<bar>"] by linarith
  ultimately have e: "0 \<le> ?e" "?e \<le> 52" by simp_all
  define k where "k = nat (52 - ?e)"
  have q: "pow2 (max ?e (- 1022) - 52) = 1 / 2 ^ k"
  proof (cases "?e = 52")
    case True
    then show ?thesis by (simp add: pow2_def k_def)
  next
    case False
    then have "?e - 52 < 0" using e by simp
    moreover have "max ?e (- 1022) = ?e" using e by simp
    ultimately show ?thesis by (simp add: pow2_def k_def)
  qed
  have "real_of_int n / (1 / 2 ^ k) = of_int (n * 2 ^ k)" by simp
  then have r: "round_ties_even (real_of_int n / (1 / 2 ^ k)) = n * 2 ^ k"
    by (simp only: round_ties_even_of_int)
  have nz: "real_of_int n \<noteq> 0" using False by simp
  show ?thesis
    unfolding round_double_def binade_of_int [OF False] Let_def q r
    using nz by simp
qed

lemma round_double_numeral [simp]:
  "(numeral k :: int) < 9007199254740992 \<Longrightarrow> round_double (numeral k) = numeral k"
  using round_double_of_int [of "numeral k"] by simp

lemma round_double_neg_numeral [simp]:
  "(numeral k :: int) < 9007199254740992 \<Longrightarrow> round_double (- numeral k) = - numeral k"
  using round_double_of_int [of "- numeral k"] by simp

lemma round_double_0 [simp]: "round_double 0 = 0"
  by (simp add: round_double_def)

lemma round_double_1 [simp]: "round_double 1 = 1"
  using round_double_of_int [of 1] by simp

lemma round_double_neg_1 [simp]: "round_double (- 1) = - 1"
  using round_double_of_int [of "- 1"] by simp

section \<open>Rounding is monotone\<close>

text \<open>
  Rounding to the nearest double never reverses the order of two numbers. The proof
  compares the two binades: within one binade both numbers are rounded on the same
  grid, and between two binades lies a power of two, which is a double.
\<close>

lemma pow2_pos: "0 < pow2 k"
  by (simp add: pow2_def)

lemma pow2_nat: "pow2 (int n) = 2 ^ n"
  by (simp add: pow2_def)

lemma pow2_neg: "pow2 (- int n) = 1 / 2 ^ n"
  by (simp add: pow2_def)

lemma pow2_Suc: "pow2 (k + 1) = 2 * pow2 k"
proof (cases "0 \<le> k")
  case True
  then have "nat (k + 1) = Suc (nat k)" by simp
  then show ?thesis using True by (simp add: pow2_def)
next
  case False
  then have "k = - int (Suc (nat (- k - 1)))" by simp
  then obtain n where k: "k = - int (Suc n)" ..
  have "k + 1 = - int n" using k by simp
  then show ?thesis using k pow2_neg [of n] pow2_neg [of "Suc n"] by simp
qed

lemma pow2_add_nat: "pow2 (k + int n) = 2 ^ n * pow2 k"
proof (induction n)
  case 0
  show ?case by simp
next
  case (Suc n)
  have "k + int (Suc n) = (k + int n) + 1" by simp
  then have "pow2 (k + int (Suc n)) = pow2 ((k + int n) + 1)" by (rule arg_cong)
  also have "\<dots> = 2 * pow2 (k + int n)" by (rule pow2_Suc)
  also have "\<dots> = 2 ^ Suc n * pow2 k" using Suc by simp
  finally show ?case .
qed

lemma pow2_mono:
  assumes "k \<le> l"
  shows "pow2 k \<le> pow2 l"
proof -
  have l: "l = k + int (nat (l - k))" using assms by simp
  have "(1::real) \<le> 2 ^ nat (l - k)" by simp
  then have "pow2 k \<le> 2 ^ nat (l - k) * pow2 k"
    using pow2_pos [of k] by simp
  also have "\<dots> = pow2 (k + int (nat (l - k)))" by (rule pow2_add_nat [symmetric])
  also have "\<dots> = pow2 l" using l by simp
  finally show ?thesis .
qed

lemma bitlen_pos_bounds:
  assumes "0 < n"
  shows "1 \<le> bitlen n"
    and "(2::real) ^ nat (bitlen n - 1) \<le> real_of_int n"
    and "real_of_int n + 1 \<le> 2 ^ nat (bitlen n)"
proof -
  have b: "2 ^ nat (bitlen n - 1) \<le> n" "n < 2 ^ nat (bitlen n)"
    using bitlen_bounds [OF assms] by simp_all
  show "1 \<le> bitlen n"
    using assms bitlen_eq_zero_iff [of n] bitlen_nonneg [of n] by linarith
  have "real_of_int (2 ^ nat (bitlen n - 1)) \<le> real_of_int n"
    using b(1) by (simp only: of_int_le_iff)
  then show "(2::real) ^ nat (bitlen n - 1) \<le> real_of_int n" by simp
  have "n + 1 \<le> 2 ^ nat (bitlen n)" using b(2) by simp
  then have "real_of_int (n + 1) \<le> real_of_int (2 ^ nat (bitlen n))"
    by (simp only: of_int_le_iff)
  then show "real_of_int n + 1 \<le> 2 ^ nat (bitlen n)" by simp
qed

lemma binade_bounds:
  assumes "x \<noteq> 0"
  shows "pow2 (binade x) \<le> \<bar>x\<bar>" and "\<bar>x\<bar> < pow2 (binade x + 1)"
proof -
  define a where "a = \<bar>x\<bar>"
  have pos: "0 < a" using assms by (simp add: a_def)
  have "pow2 (binade x) \<le> a \<and> a < pow2 (binade x + 1)"
  proof (cases "1 \<le> a")
    case True
    define n where "n = \<lfloor>a\<rfloor>"
    define b where "b = bitlen n"
    have an: "real_of_int n \<le> a" "a < real_of_int n + 1"
      unfolding n_def by linarith+
    have n: "0 < n" using True unfolding n_def by linarith
    note bb = bitlen_pos_bounds [OF n, folded b_def]
    have e: "binade x = b - 1"
      using True by (simp add: binade_def a_def b_def n_def)
    have p1: "pow2 (b - 1) = 2 ^ nat (b - 1)" using bb(1) by (simp add: pow2_def)
    have p2: "pow2 (b - 1 + 1) = 2 ^ nat b" using bb(1) by (simp add: pow2_def)
    have "pow2 (b - 1) \<le> a" unfolding p1 using bb(2) an(1) by linarith
    moreover have "a < pow2 (b - 1 + 1)" unfolding p2 using bb(3) an(2) by linarith
    ultimately show ?thesis unfolding e by simp
  next
    case False
    then have lt: "a < 1" by simp
    define y where "y = 1 / a"
    have y: "1 < y" "0 < y" using pos lt by (simp_all add: y_def)
    have ay: "a = 1 / y" by (simp add: y_def)
    define n where "n = \<lceil>y\<rceil> - 1"
    define b where "b = bitlen n"
    have yn: "real_of_int n < y" "y \<le> real_of_int n + 1"
      unfolding n_def by linarith+
    have n: "0 < n" using y(1) unfolding n_def by linarith
    note bb = bitlen_pos_bounds [OF n, folded b_def]
    have e: "binade x = - b"
      using False by (simp add: binade_def a_def [symmetric] y_def [symmetric] n_def [symmetric] b_def)
    have p1: "pow2 (- b) = 1 / 2 ^ nat b" using bb(1) by (simp add: pow2_def)
    have p2: "pow2 (- b + 1) = 1 / 2 ^ nat (b - 1)"
    proof (cases "b = 1")
      case True
      then show ?thesis by (simp add: pow2_def)
    next
      case False
      then have "- b + 1 < 0" using bb(1) by simp
      moreover have "nat (- (- b + 1)) = nat (b - 1)" by simp
      ultimately show ?thesis by (simp add: pow2_def)
    qed
    have "y \<le> 2 ^ nat b" using yn(2) bb(3) by linarith
    then have "1 / 2 ^ nat b \<le> 1 / y"
      using y(2) by (simp add: frac_le)
    then have lo: "pow2 (- b) \<le> a" unfolding p1 ay .
    have "2 ^ nat (b - 1) < y" using yn(1) bb(2) by linarith
    then have "1 / y < 1 / 2 ^ nat (b - 1)"
      using y(2) by (simp add: frac_less2)
    then have hi: "a < pow2 (- b + 1)" unfolding p2 ay .
    show ?thesis unfolding e using lo hi by simp
  qed
  then show "pow2 (binade x) \<le> \<bar>x\<bar>" and "\<bar>x\<bar> < pow2 (binade x + 1)"
    by (simp_all add: a_def)
qed

lemma round_ties_even_range:
  "\<lfloor>y\<rfloor> \<le> round_ties_even y" "round_ties_even y \<le> \<lfloor>y\<rfloor> + 1"
  by (simp_all add: round_ties_even_def Let_def)

lemma round_ties_even_mono:
  assumes "y \<le> z"
  shows "round_ties_even y \<le> round_ties_even z"
proof (cases "\<lfloor>y\<rfloor> = \<lfloor>z\<rfloor>")
  case True
  have "y - of_int \<lfloor>z\<rfloor> \<le> z - of_int \<lfloor>z\<rfloor>" using assms by simp
  then show ?thesis
    unfolding round_ties_even_def Let_def True by auto
next
  case False
  moreover have "\<lfloor>y\<rfloor> \<le> \<lfloor>z\<rfloor>" using assms by (rule floor_mono)
  ultimately have "\<lfloor>y\<rfloor> + 1 \<le> \<lfloor>z\<rfloor>" by simp
  then show ?thesis
    using round_ties_even_range(2) [of y] round_ties_even_range(1) [of z] by linarith
qed

lemma round_ties_even_minus: "round_ties_even (- y) = - round_ties_even y"
proof (cases "y \<in> \<int>")
  case True
  then obtain k where y: "y = of_int k" by (auto elim: Ints_cases)
  have "- y = of_int (- k)" using y by simp
  then have "round_ties_even (- y) = - k" by (simp only: round_ties_even_of_int)
  then show ?thesis using y by (simp only: round_ties_even_of_int)
next
  case False
  define f where "f = \<lfloor>y\<rfloor>"
  define r where "r = y - of_int f"
  have "y \<noteq> of_int \<lfloor>y\<rfloor>" using False by (metis Ints_of_int)
  then have "\<lceil>y\<rceil> = f + 1" by (simp add: ceiling_altdef f_def)
  then have fl: "\<lfloor>- y\<rfloor> = - f - 1" by (simp add: floor_minus)
  have r': "- y - of_int (- f - 1) = 1 - r" by (simp add: r_def)
  have a: "round_ties_even y =
      (if r < 1 / 2 then f else if 1 / 2 < r then f + 1 else if even f then f else f + 1)"
    by (simp add: round_ties_even_def Let_def f_def r_def)
  have b: "round_ties_even (- y) =
      (if 1 - r < 1 / 2 then - f - 1 else if 1 / 2 < 1 - r then - f - 1 + 1
       else if even (- f - 1) then - f - 1 else - f - 1 + 1)"
    unfolding round_ties_even_def Let_def fl r' ..
  show ?thesis unfolding a b by auto
qed

lemma binade_minus: "binade (- x) = binade x"
  by (simp add: binade_def)

lemma round_double_minus: "round_double (- x) = - round_double x"
proof (cases "x = 0")
  case True
  then show ?thesis by (simp add: round_double_def)
next
  case False
  define q where "q = pow2 (max (binade x) (- 1022) - 52)"
  have a: "round_double x = of_int (round_ties_even (x / q)) * q"
    using False by (simp add: round_double_def Let_def q_def)
  have "round_double (- x) = of_int (round_ties_even (- x / q)) * q"
    using False by (simp add: round_double_def Let_def q_def binade_minus)
  also have "- x / q = - (x / q)" by simp
  finally show ?thesis unfolding a round_ties_even_minus by simp
qed

lemma round_double_pos_bounds:
  assumes "0 < x"
  shows "0 \<le> round_double x"
    and "round_double x \<le> pow2 (max (binade x) (- 1022) + 1)"
    and "- 1022 \<le> binade x \<Longrightarrow> pow2 (binade x) \<le> round_double x"
proof -
  define e where "e = max (binade x) (- 1022)"
  define q where "q = pow2 (e - 52)"
  have q: "0 < q" unfolding q_def by (rule pow2_pos)
  have nz: "x \<noteq> 0" using assms by simp
  have rd: "round_double x = of_int (round_ties_even (x / q)) * q"
    using nz by (simp add: round_double_def Let_def q_def e_def)
  have ax: "\<bar>x\<bar> = x" using assms by simp
  have "0 \<le> x / q" using assms q by simp
  then have "round_ties_even (of_int 0) \<le> round_ties_even (x / q)"
    by (intro round_ties_even_mono) simp
  then have "0 \<le> round_ties_even (x / q)" by (simp only: round_ties_even_of_int)
  then show "0 \<le> round_double x" unfolding rd using q by simp
  have "pow2 (e + 1) = pow2 (e - 52 + int 53)"
    by (rule arg_cong [where f = pow2]) simp
  also have "\<dots> = 2 ^ 53 * pow2 (e - 52)" by (rule pow2_add_nat)
  finally have hi: "pow2 (e + 1) = 2 ^ 53 * q" unfolding q_def .
  have "x < pow2 (binade x + 1)" using binade_bounds(2) [OF nz] ax by simp
  also have "\<dots> \<le> pow2 (e + 1)" by (rule pow2_mono) (simp add: e_def)
  finally have "x / q \<le> 2 ^ 53" unfolding hi using q by (simp add: field_simps)
  then have "x / q \<le> of_int (2 ^ 53)" by simp
  then have "round_ties_even (x / q) \<le> round_ties_even (of_int (2 ^ 53))"
    by (rule round_ties_even_mono)
  then have "round_ties_even (x / q) \<le> 2 ^ 53" by (simp only: round_ties_even_of_int)
  then have "real_of_int (round_ties_even (x / q)) \<le> real_of_int (2 ^ 53)"
    by (simp only: of_int_le_iff)
  then have "real_of_int (round_ties_even (x / q)) * q \<le> 2 ^ 53 * q"
    using q by simp
  then show "round_double x \<le> pow2 (max (binade x) (- 1022) + 1)"
    unfolding rd hi [symmetric] e_def .
next
  assume n: "- 1022 \<le> binade x"
  define q where "q = pow2 (binade x - 52)"
  have q: "0 < q" unfolding q_def by (rule pow2_pos)
  have nz: "x \<noteq> 0" using assms by simp
  have m: "max (binade x) (- 1022) = binade x" using n by simp
  have rd: "round_double x = of_int (round_ties_even (x / q)) * q"
    using nz by (simp add: round_double_def Let_def q_def m)
  have ax: "\<bar>x\<bar> = x" using assms by simp
  have "pow2 (binade x) = pow2 (binade x - 52 + int 52)"
    by (rule arg_cong [where f = pow2]) simp
  also have "\<dots> = 2 ^ 52 * pow2 (binade x - 52)" by (rule pow2_add_nat)
  finally have lo: "pow2 (binade x) = 2 ^ 52 * q" unfolding q_def .
  have "2 ^ 52 * q \<le> x" using binade_bounds(1) [OF nz] ax lo by simp
  then have "2 ^ 52 \<le> x / q" using q by (simp add: field_simps)
  then have "of_int (2 ^ 52) \<le> x / q" by simp
  then have "round_ties_even (of_int (2 ^ 52)) \<le> round_ties_even (x / q)"
    by (rule round_ties_even_mono)
  then have "2 ^ 52 \<le> round_ties_even (x / q)" by (simp only: round_ties_even_of_int)
  then have "real_of_int (2 ^ 52) \<le> real_of_int (round_ties_even (x / q))"
    by (simp only: of_int_le_iff)
  then have "2 ^ 52 * q \<le> real_of_int (round_ties_even (x / q)) * q"
    using q by simp
  then show "pow2 (binade x) \<le> round_double x" unfolding rd lo .
qed

lemma binade_mono_pos:
  assumes "0 < x" "x \<le> y"
  shows "binade x \<le> binade y"
proof (rule ccontr)
  assume "\<not> binade x \<le> binade y"
  then have "binade y + 1 \<le> binade x" by simp
  then have "pow2 (binade y + 1) \<le> pow2 (binade x)" by (rule pow2_mono)
  moreover have "y < pow2 (binade y + 1)"
    using binade_bounds(2) [of y] assms by simp
  moreover have "pow2 (binade x) \<le> x"
    using binade_bounds(1) [of x] assms by simp
  ultimately show False using assms by linarith
qed

lemma round_double_mono_pos:
  assumes "0 < x" "x \<le> y"
  shows "round_double x \<le> round_double y"
proof -
  have y: "0 < y" using assms by simp
  define ex where "ex = max (binade x) (- 1022)"
  define ey where "ey = max (binade y) (- 1022)"
  have le: "ex \<le> ey" using binade_mono_pos [OF assms] by (simp add: ex_def ey_def)
  show ?thesis
  proof (cases "ex = ey")
    case True
    define q where "q = pow2 (ex - 52)"
    have q: "0 < q" unfolding q_def by (rule pow2_pos)
    have rx: "round_double x = of_int (round_ties_even (x / q)) * q"
      using assms by (simp add: round_double_def Let_def q_def ex_def)
    have ry: "round_double y = of_int (round_ties_even (y / q)) * q"
      using y True by (simp add: round_double_def Let_def q_def ey_def)
    have "x / q \<le> y / q" using assms q by (simp add: divide_right_mono)
    then have "round_ties_even (x / q) \<le> round_ties_even (y / q)"
      by (rule round_ties_even_mono)
    then have "real_of_int (round_ties_even (x / q)) \<le> real_of_int (round_ties_even (y / q))"
      by (simp only: of_int_le_iff)
    then show ?thesis unfolding rx ry using q by simp
  next
    case False
    then have lt: "ex + 1 \<le> ey" using le by simp
    then have bin: "ey = binade y" "- 1022 \<le> binade y"
      by (simp_all add: ex_def ey_def)
    have "round_double x \<le> pow2 (ex + 1)"
      using round_double_pos_bounds(2) [OF assms(1)] by (simp add: ex_def)
    also have "\<dots> \<le> pow2 (binade y)"
      using lt bin(1) by (intro pow2_mono) simp
    also have "\<dots> \<le> round_double y"
      using round_double_pos_bounds(3) [OF y bin(2)] .
    finally show ?thesis .
  qed
qed

lemma round_double_mono:
  assumes "x \<le> y"
  shows "round_double x \<le> round_double y"
proof -
  have z: "round_double 0 = 0" by (simp add: round_double_def)
  consider "0 < x" | "y < 0" | "x \<le> 0" "0 \<le> y" using assms by linarith
  then show ?thesis
  proof cases
    case 1
    then show ?thesis using assms by (rule round_double_mono_pos)
  next
    case 2
    then have "0 < - y" "- y \<le> - x" using assms by simp_all
    then have "round_double (- y) \<le> round_double (- x)" by (rule round_double_mono_pos)
    then show ?thesis unfolding round_double_minus by simp
  next
    case 3
    have "round_double x \<le> 0"
    proof (cases "x = 0")
      case True
      then show ?thesis using z by simp
    next
      case False
      then have "0 < - x" using 3 by simp
      then have "0 \<le> round_double (- x)" by (rule round_double_pos_bounds(1))
      then show ?thesis unfolding round_double_minus by simp
    qed
    moreover have "0 \<le> round_double y"
    proof (cases "y = 0")
      case True
      then show ?thesis using z by simp
    next
      case False
      then have "0 < y" using 3 by simp
      then show ?thesis by (rule round_double_pos_bounds(1))
    qed
    ultimately show ?thesis by linarith
  qed
qed

section \<open>Bounded inspector buffers\<close>

lemma slice_last_length: "length (slice_last n xs) = min n (length xs)"
  by (simp add: slice_last_def)

lemma slice_last_snoc: "slice_last (Suc n) (xs @ [x]) = slice_last n xs @ [x]"
  by (simp add: slice_last_def)

lemma slice_last_idem_app:
  "slice_last n (slice_last n xs @ ys) = slice_last n (xs @ ys)"
proof (cases "length xs \<le> n")
  case True
  then show ?thesis by (simp add: slice_last_def)
next
  case False
  then have "length (slice_last n xs) = n" by (simp add: slice_last_length)
  then show ?thesis
    using False by (simp add: slice_last_def add.commute)
qed

lemma inspectorMessages_fold:
  "inspectorMessages (foldl (\<lambda>st m. addInspectorMessage m st) st (hist @ [m])) =
     slice_last 500 (inspectorMessages st @ hist @ [m])"
proof (induction hist arbitrary: m rule: rev_induct)
  case Nil
  show ?case by (simp add: addInspectorMessage_def)
next
  case (snoc h hist)
  have "inspectorMessages (foldl (\<lambda>st m. addInspectorMessage m st) st ((hist @ [h]) @ [m])) =
        slice_last 500 (slice_last 500 (inspectorMessages st @ hist @ [h]) @ [m])"
    using snoc.IH [of h] by (simp add: addInspectorMessage_def)
  also have "\<dots> = slice_last 500 ((inspectorMessages st @ hist @ [h]) @ [m])"
    by (rule slice_last_idem_app)
  finally show ?case by simp
qed

lemma panel_add_message_eq: "panel_add_message m prev = slice_last 500 (prev @ [m])"
proof -
  have "slice_last (Suc 499) (prev @ [m]) = slice_last 499 prev @ [m]"
    by (rule slice_last_snoc)
  then show ?thesis by (simp add: panel_add_message_def)
qed

lemma panel_fold:
  "foldl (\<lambda>prev m. panel_add_message m prev) prev (hist @ [m]) =
     slice_last 500 (prev @ hist @ [m])"
proof (induction hist arbitrary: m rule: rev_induct)
  case Nil
  show ?case by (simp add: panel_add_message_eq)
next
  case (snoc h hist)
  have "foldl (\<lambda>prev m. panel_add_message m prev) prev ((hist @ [h]) @ [m]) =
        slice_last 500 (slice_last 500 (prev @ hist @ [h]) @ [m])"
    using snoc.IH [of h] by (simp add: panel_add_message_eq)
  also have "\<dots> = slice_last 500 ((prev @ hist @ [h]) @ [m])"
    by (rule slice_last_idem_app)
  finally show ?case by simp
qed

text \<open>
  C10. After every \<^verbatim>\<open>addInspectorMessage\<close> the store's message list has at most 500
  entries, and after any non-empty sequence of additions it is exactly the last 500 of
  everything that was there or was added, in arrival order (all of it when that is
  fewer than 500). The inspector panel's live list obeys the same bound and holds the
  same elements for every message it receives.
\<close>

theorem inspector_buffers_bounded:
  "length (inspectorMessages (addInspectorMessage m st)) \<le> 500 \<and>
   inspectorMessages (foldl (\<lambda>st m. addInspectorMessage m st) st (hist @ [m])) =
     slice_last 500 (inspectorMessages st @ hist @ [m]) \<and>
   length (panel_add_message m' prev) \<le> 500 \<and>
   foldl (\<lambda>prev m. panel_add_message m prev) prev (hist' @ [m']) =
     slice_last 500 (prev @ hist' @ [m'])"
proof -
  have "length (inspectorMessages (addInspectorMessage m st)) \<le> 500"
    by (simp add: addInspectorMessage_def slice_last_length)
  moreover have "length (panel_add_message m' prev) \<le> 500"
    by (simp add: panel_add_message_eq slice_last_length)
  ultimately show ?thesis
    by (simp only: inspectorMessages_fold panel_fold simp_thms)
qed


section \<open>The scheduling loop\<close>

lemma onLog_calls_append: "onLog_calls (a @ b) = onLog_calls a @ onLog_calls b"
  by (induction a rule: onLog_calls.induct) simp_all

lemma onProgress_calls_append:
  "onProgress_calls (a @ b) = onProgress_calls a @ onProgress_calls b"
  by (induction a rule: onProgress_calls.induct) simp_all

lemma onLog_emit_calls: "onLog_calls (emit_calls e n xs) = xs"
  by (induction xs arbitrary: e) simp_all

lemma onProgress_emit_calls:
  "onProgress_calls (emit_calls e n xs) = map (\<lambda>i. js_div (e + i) n) [1..<Suc (length xs)]"
proof (induction xs arbitrary: e)
  case Nil
  show ?case by simp
next
  case (Cons x xs)
  have "[1..<Suc (length (x # xs))] = 1 # map Suc [1..<Suc (length xs)]"
    by (simp add: upt_conv_Cons map_Suc_upt del: upt_Suc)
  then show ?case
    using Cons.IH [of "Suc e"] by (simp add: comp_def del: upt_Suc)
qed

lemma emit_ready_char:
  "emit_ready t s =
     s\<lparr>queue := dropWhile (\<lambda>e. timestamp e \<le> t) (queue s),
       calls := calls s @
         emit_calls (emittedCount s) (totalLogs s) (takeWhile (\<lambda>e. timestamp e \<le> t) (queue s)),
       emittedCount := emittedCount s + length (takeWhile (\<lambda>e. timestamp e \<le> t) (queue s))\<rparr>"
proof (induction t s rule: emit_ready.induct)
  case (1 t s)
  show ?case
  proof (cases "queue s")
    case Nil
    then show ?thesis by simp
  next
    case (Cons x rest)
    show ?thesis
    proof (cases "timestamp x \<le> t")
      case True
      then show ?thesis
        using Cons "1.IH" [OF Cons True] by (subst emit_ready.simps) simp
    next
      case False
      then show ?thesis using Cons by simp
    qed
  qed
qed

declare emit_ready.simps [simp del]

lemma tick_playing:
  "status s = Playing \<Longrightarrow>
   tick now s =
     (let s1 = emit_ready (target_simulated_time now s) s;
          s2 = (if int (length (queue s1)) < refetchThreshold s1 \<and> \<not> isFetching s1
                then fetchNextBatch_call s1 else s1)
      in if queue s2 = [] \<and> totalLogs s2 \<le> offset s2
         then setStatus Ended s2 else s2\<lparr>rafHandle := True\<rparr>)"
  by (simp add: tick_def target_simulated_time_def Let_def)

lemma Nil_eq_dropWhile: "([] = dropWhile P xs) = (\<forall>x\<in>set xs. P x)"
  by (metis dropWhile_eq_Nil_conv)

lemma tick_fields:
  assumes "status s = Playing"
  shows "queue (tick now s) =
           dropWhile (\<lambda>e. timestamp e \<le> target_simulated_time now s) (queue s)"
    and "emittedCount (tick now s) =
           emittedCount s +
           length (takeWhile (\<lambda>e. timestamp e \<le> target_simulated_time now s) (queue s))"
    and "calls (tick now s) =
           calls s @
           emit_calls (emittedCount s) (totalLogs s)
             (takeWhile (\<lambda>e. timestamp e \<le> target_simulated_time now s) (queue s)) @
           (if status (tick now s) = Ended then [OnStatusChange Ended] else [])"
    and "totalLogs (tick now s) = totalLogs s"
    and "offset (tick now s) = offset s"
    and "speed (tick now s) = speed s"
    and "startTime (tick now s) = startTime s"
    and "simulationTimeStart (tick now s) = simulationTimeStart s"
  using assms
  by (simp_all add: tick_playing emit_ready_char Let_def fetchNextBatch_call_def
      setStatus_def isFetching_def Nil_eq_dropWhile)

text \<open>
  C2. A tick taken in the playing state computes the target simulated time
  \<open>simulationTimeStart + (now - startTime) * speed\<close> (in double arithmetic) and emits, in queue order, exactly
  the longest front part of the queue whose timestamps are at most that target; the
  emitted count grows by one per emitted event, every \<^verbatim>\<open>onLog\<close> is followed by
  \<^verbatim>\<open>onProgress\<close> with the new count over the total, and no buffered event with a later
  timestamp is emitted on that tick.
\<close>

theorem tick_emits_ready_prefix:
  assumes "status s = Playing"
  shows "onLog_calls (calls (tick now s)) =
           onLog_calls (calls s) @
           takeWhile (\<lambda>e. timestamp e \<le> target_simulated_time now s) (queue s) \<and>
         queue (tick now s) =
           dropWhile (\<lambda>e. timestamp e \<le> target_simulated_time now s) (queue s) \<and>
         emittedCount (tick now s) =
           emittedCount s +
           length (takeWhile (\<lambda>e. timestamp e \<le> target_simulated_time now s) (queue s)) \<and>
         calls (tick now s) =
           calls s @
           emit_calls (emittedCount s) (totalLogs s)
             (takeWhile (\<lambda>e. timestamp e \<le> target_simulated_time now s) (queue s)) @
           (if status (tick now s) = Ended then [OnStatusChange Ended] else []) \<and>
         onProgress_calls (calls (tick now s)) =
           onProgress_calls (calls s) @
           map (\<lambda>i. js_div (emittedCount s + i) (totalLogs s))
             [1..<Suc (length
                (takeWhile (\<lambda>e. timestamp e \<le> target_simulated_time now s) (queue s)))] \<and>
         (\<forall>e \<in> set (queue s). target_simulated_time now s < timestamp e \<longrightarrow>
            e \<notin> set (drop (length (onLog_calls (calls s)))
                           (onLog_calls (calls (tick now s))))) \<and>
         target_simulated_time now s =
           dbl_add (simulationTimeStart s) (dbl_mul (dbl_sub now (startTime s)) (speed s))"
proof -
  let ?ready = "takeWhile (\<lambda>e. timestamp e \<le> target_simulated_time now s) (queue s)"
  have c: "calls (tick now s) =
           calls s @ emit_calls (emittedCount s) (totalLogs s) ?ready @
           (if status (tick now s) = Ended then [OnStatusChange Ended] else [])"
    using assms by (rule tick_fields)
  have l: "onLog_calls (calls (tick now s)) = onLog_calls (calls s) @ ?ready"
    by (simp add: c onLog_calls_append onLog_emit_calls)
  have p: "onProgress_calls (calls (tick now s)) =
           onProgress_calls (calls s) @
           map (\<lambda>i. js_div (emittedCount s + i) (totalLogs s)) [1..<Suc (length ?ready)]"
    by (simp add: c onProgress_calls_append onProgress_emit_calls del: upt_Suc)
  have b: "\<forall>e \<in> set (queue s). target_simulated_time now s < timestamp e \<longrightarrow>
             e \<notin> set (drop (length (onLog_calls (calls s)))
                            (onLog_calls (calls (tick now s))))"
    unfolding l by (auto dest: set_takeWhileD)
  show ?thesis
    using c l p b tick_fields(1,2) [OF assms, of now]
    by (simp only: target_simulated_time_def simp_thms)
qed

lemma tick_not_playing: "status s \<noteq> Playing \<Longrightarrow> tick now s = s"
  by (simp add: tick_def)

lemma tick_clock_fields:
  "speed (tick now s) = speed s \<and> startTime (tick now s) = startTime s \<and>
   simulationTimeStart (tick now s) = simulationTimeStart s \<and>
   totalLogs (tick now s) = totalLogs s \<and> offset (tick now s) = offset s"
  by (cases "status s = Playing") (simp_all add: tick_fields tick_not_playing)

lemma target_simulated_time_tick:
  "target_simulated_time t (tick now s) = target_simulated_time t s"
  by (simp add: target_simulated_time_def tick_clock_fields)

lemma target_simulated_time_mono:
  assumes "0 \<le> speed s" and "t1 \<le> t2"
  shows "target_simulated_time t1 s \<le> target_simulated_time t2 s"
proof -
  have "dbl_sub t1 (startTime s) \<le> dbl_sub t2 (startTime s)"
    unfolding dbl_sub_def using assms(2) by (intro round_double_mono) simp
  then have "dbl_sub t1 (startTime s) * speed s \<le> dbl_sub t2 (startTime s) * speed s"
    using assms(1) by (rule mult_right_mono)
  then have "dbl_mul (dbl_sub t1 (startTime s)) (speed s) \<le>
             dbl_mul (dbl_sub t2 (startTime s)) (speed s)"
    unfolding dbl_mul_def by (rule round_double_mono)
  then show ?thesis
    unfolding target_simulated_time_def dbl_add_def
    by (intro round_double_mono) simp
qed

text \<open>
  C3, as amended. For a playing engine and a multiplier \<open>m > 0\<close>, \<^verbatim>\<open>setSpeed(m)\<close> sets the
  speed to \<open>m\<close> and \<open>startTime\<close> to \<open>now - ((now - startTime) * speed) / m\<close>, computed in
  double arithmetic, and touches neither \<open>simulationTimeStart\<close>, the status, the queue,
  the cursor, the emitted count nor the callbacks: what a later tick emits comes from
  the unchanged queue, so no event already emitted is emitted again. Whenever the four
  intermediate results \<open>now - startTime\<close>, its product with the speed, that product
  divided by \<open>m\<close>, and \<open>now\<close> minus that quotient are doubles (nothing is rounded), the
  target simulated time at the instant of the change is the same after the call as
  before. After the call the target simulated time never decreases as the clock
  reading grows, so under the same condition it is at no later reading below its value
  before the call.
\<close>

theorem setSpeed_keeps_position_when_exact:
  assumes "status s = Playing" and "0 < m"
  shows "speed (setSpeed m now s) = m \<and>
         startTime (setSpeed m now s) =
           dbl_sub now (dbl_div (dbl_mul (dbl_sub now (startTime s)) (speed s)) m) \<and>
         simulationTimeStart (setSpeed m now s) = simulationTimeStart s \<and>
         status (setSpeed m now s) = Playing \<and>
         queue (setSpeed m now s) = queue s \<and>
         offset (setSpeed m now s) = offset s \<and>
         emittedCount (setSpeed m now s) = emittedCount s \<and>
         calls (setSpeed m now s) = calls s \<and>
         (\<forall>later. onLog_calls (calls (tick later (setSpeed m now s))) =
            onLog_calls (calls s) @
            takeWhile (\<lambda>e. timestamp e \<le> target_simulated_time later (setSpeed m now s))
              (queue s)) \<and>
         (representable (now - startTime s) \<and>
          representable ((now - startTime s) * speed s) \<and>
          representable ((now - startTime s) * speed s / m) \<and>
          representable (now - (now - startTime s) * speed s / m) \<longrightarrow>
            target_simulated_time now (setSpeed m now s) = target_simulated_time now s \<and>
            (\<forall>later. now \<le> later \<longrightarrow>
               target_simulated_time now s \<le>
                 target_simulated_time later (setSpeed m now s))) \<and>
         (\<forall>t1 t2. t1 \<le> t2 \<longrightarrow>
            target_simulated_time t1 (setSpeed m now s) \<le>
              target_simulated_time t2 (setSpeed m now s))"
proof -
  let ?s' = "setSpeed m now s"
  have st: "startTime ?s' =
              dbl_sub now (dbl_div (dbl_mul (dbl_sub now (startTime s)) (speed s)) m)"
    and sp: "speed ?s' = m"
    and sim: "simulationTimeStart ?s' = simulationTimeStart s"
    and frame: "queue ?s' = queue s" "offset ?s' = offset s"
      "emittedCount ?s' = emittedCount s" "calls ?s' = calls s" "status ?s' = Playing"
    using assms by (simp_all add: setSpeed_def Let_def)
  have emit: "onLog_calls (calls (tick later ?s')) =
              onLog_calls (calls s) @
              takeWhile (\<lambda>e. timestamp e \<le> target_simulated_time later ?s') (queue s)"
    for later
    using tick_fields(3) [OF frame(5), of later]
    by (simp add: frame onLog_calls_append onLog_emit_calls)
  have eq: "target_simulated_time now ?s' = target_simulated_time now s"
    if r: "representable (now - startTime s)"
      "representable ((now - startTime s) * speed s)"
      "representable ((now - startTime s) * speed s / m)"
      "representable (now - (now - startTime s) * speed s / m)"
  proof -
    let ?a = "now - startTime s"
    have 1: "dbl_sub now (startTime s) = ?a"
      using r(1) by (simp add: dbl_sub_def representable_def)
    have 2: "dbl_mul ?a (speed s) = ?a * speed s"
      using r(2) by (simp add: dbl_mul_def representable_def)
    have 3: "dbl_div (?a * speed s) m = ?a * speed s / m"
      using r(3) by (simp add: dbl_div_def representable_def)
    have 4: "dbl_sub now (?a * speed s / m) = now - ?a * speed s / m"
      using r(4) by (simp add: dbl_sub_def representable_def)
    have st': "startTime ?s' = now - ?a * speed s / m"
      by (simp only: st 1 2 3 4)
    have 5: "dbl_sub now (startTime ?s') = ?a * speed s / m"
      using r(3) by (simp add: st' dbl_sub_def representable_def)
    have "?a * speed s / m * m = ?a * speed s"
      using assms(2) by simp
    then have 6: "dbl_mul (?a * speed s / m) m = ?a * speed s"
      using r(2) by (simp add: dbl_mul_def representable_def)
    show ?thesis
      by (simp only: target_simulated_time_def 5 6 sp sim 1 2)
  qed
  have mono: "target_simulated_time t1 ?s' \<le> target_simulated_time t2 ?s'"
    if "t1 \<le> t2" for t1 t2
    using that assms(2) sp by (intro target_simulated_time_mono) simp_all
  have later: "target_simulated_time now s \<le> target_simulated_time later ?s'"
    if "representable (now - startTime s)"
      "representable ((now - startTime s) * speed s)"
      "representable ((now - startTime s) * speed s / m)"
      "representable (now - (now - startTime s) * speed s / m)"
      "now \<le> later" for later
    using eq [OF that(1-4)] mono [OF that(5)] by simp
  show ?thesis
    using st sp sim frame emit eq later mono by blast
qed

text \<open>
  C3 as stated fails in the code's arithmetic: on the playing example engine
  (\<open>startTime\<close> 0, speed 1) \<^verbatim>\<open>setSpeed(3)\<close> at clock reading 1 sets \<open>startTime\<close> to the
  double next to 2/3, and the target simulated time at that same reading drops from 1
  to \<open>1 - 2 / 2 ^ 53\<close>: the clock has moved backward.
\<close>

theorem setSpeed_rounding_counterexample:
  "status demo_playing = Playing \<and>
   startTime demo_playing = 0 \<and> speed demo_playing = 1 \<and>
   target_simulated_time 1 demo_playing = 1 \<and>
   startTime (setSpeed 3 1 demo_playing) = 3002399751580331 / 4503599627370496 \<and>
   target_simulated_time 1 (setSpeed 3 1 demo_playing) =
     4503599627370495 / 4503599627370496 \<and>
   target_simulated_time 1 (setSpeed 3 1 demo_playing) < target_simulated_time 1 demo_playing"
  by code_simp

lemma start_from_paused:
  "status s = Paused \<Longrightarrow>
   start db settled now nowTick s =
     tick nowTick
       (setStatus Playing (s\<lparr>startTime := dbl_add (startTime s) (dbl_sub now (pausedAt s))\<rparr>))"
  by (simp add: start_def start_playing_def)

text \<open>
  C6, as amended. When a playing engine is paused by \<^verbatim>\<open>pause()\<close> at \<open>nowPause\<close> and
  resumed by \<^verbatim>\<open>start()\<close> at \<open>nowResume\<close>, with no other call in between, \<^verbatim>\<open>start()\<close>
  sets \<open>startTime\<close> to \<open>startTime + (nowResume - nowPause)\<close>, both operations in double
  arithmetic; from any paused engine it sets it to \<open>startTime + (nowResume - pausedAt)\<close>.
  Whenever that difference and that sum are doubles (nothing is rounded), \<open>startTime\<close>
  has moved forward by exactly the paused time, the simulated clock at the resume
  reading is the one of the pause reading, at every reading \<open>t\<close> it is the clock of the
  never-paused engine at \<open>t - (nowResume - nowPause)\<close>, and the resuming tick emits what
  a tick of the never-paused engine would have emitted at that earlier reading.
\<close>

theorem resume_shifts_start_by_paused_time:
  assumes "status s = Playing"
  shows "status (pause nowPause s) = Paused \<and>
         pausedAt (pause nowPause s) = nowPause \<and>
         startTime (start db settled nowResume nowTick (pause nowPause s)) =
           dbl_add (startTime s) (dbl_sub nowResume nowPause) \<and>
         (status p = Paused \<longrightarrow>
            startTime (start db settled nowResume nowTick p) =
              dbl_add (startTime p) (dbl_sub nowResume (pausedAt p))) \<and>
         (representable (nowResume - nowPause) \<and>
          representable (startTime s + (nowResume - nowPause)) \<longrightarrow>
            startTime (start db settled nowResume nowTick (pause nowPause s)) =
              startTime s + (nowResume - nowPause) \<and>
            target_simulated_time nowResume
                (start db settled nowResume nowTick (pause nowPause s)) =
              target_simulated_time nowPause s \<and>
            (\<forall>t. target_simulated_time t
                   (start db settled nowResume nowTick (pause nowPause s)) =
                 target_simulated_time (t - (nowResume - nowPause)) s) \<and>
            onLog_calls (calls (start db settled nowResume nowTick (pause nowPause s))) =
              onLog_calls (calls (tick (nowTick - (nowResume - nowPause)) s)) \<and>
            queue (start db settled nowResume nowTick (pause nowPause s)) =
              queue (tick (nowTick - (nowResume - nowPause)) s) \<and>
            emittedCount (start db settled nowResume nowTick (pause nowPause s)) =
              emittedCount (tick (nowTick - (nowResume - nowPause)) s))"
proof -
  let ?p = "pause nowPause s"
  let ?q = "setStatus Playing
              (?p\<lparr>startTime := dbl_add (startTime ?p) (dbl_sub nowResume (pausedAt ?p))\<rparr>)"
  let ?r = "start db settled nowResume nowTick ?p"
  have p: "status ?p = Paused" "pausedAt ?p = nowPause" "startTime ?p = startTime s"
    using assms by (simp_all add: pause_def setStatus_def)
  have r: "?r = tick nowTick ?q"
    using p(1) by (rule start_from_paused)
  have q: "status ?q = Playing"
    "startTime ?q = dbl_add (startTime s) (dbl_sub nowResume nowPause)"
    "speed ?q = speed s" "simulationTimeStart ?q = simulationTimeStart s"
    "queue ?q = queue s" "emittedCount ?q = emittedCount s" "totalLogs ?q = totalLogs s"
    "onLog_calls (calls ?q) = onLog_calls (calls s)"
    using assms by (simp_all add: pause_def setStatus_def onLog_calls_append)
  have c0: "startTime ?r = dbl_add (startTime s) (dbl_sub nowResume nowPause)"
    by (simp add: r tick_clock_fields q)
  have g: "startTime (start db settled nowResume nowTick p) =
             dbl_add (startTime p) (dbl_sub nowResume (pausedAt p))"
    if "status p = Paused"
    using that by (simp add: start_from_paused tick_clock_fields setStatus_def)
  have ex: "startTime ?r = startTime s + (nowResume - nowPause) \<and>
            target_simulated_time nowResume ?r = target_simulated_time nowPause s \<and>
            (\<forall>t. target_simulated_time t ?r =
                 target_simulated_time (t - (nowResume - nowPause)) s) \<and>
            onLog_calls (calls ?r) =
              onLog_calls (calls (tick (nowTick - (nowResume - nowPause)) s)) \<and>
            queue ?r = queue (tick (nowTick - (nowResume - nowPause)) s) \<and>
            emittedCount ?r = emittedCount (tick (nowTick - (nowResume - nowPause)) s)"
    if rep: "representable (nowResume - nowPause)"
      "representable (startTime s + (nowResume - nowPause))"
  proof -
    have d: "dbl_sub nowResume nowPause = nowResume - nowPause"
      using rep(1) by (simp add: dbl_sub_def representable_def)
    have qs: "startTime ?q = startTime s + (nowResume - nowPause)"
      unfolding q(2) d using rep(2) by (simp add: dbl_add_def representable_def)
    have arg: "t - (startTime s + (nowResume - nowPause)) =
               t - (nowResume - nowPause) - startTime s" for t
      by simp
    have sub: "dbl_sub t (startTime s + (nowResume - nowPause)) =
               dbl_sub (t - (nowResume - nowPause)) (startTime s)" for t
      unfolding dbl_sub_def arg ..
    have clock: "target_simulated_time t ?q =
                 target_simulated_time (t - (nowResume - nowPause)) s" for t
      by (simp only: target_simulated_time_def q(3,4) qs sub)
    have c1: "startTime ?r = startTime s + (nowResume - nowPause)"
      by (simp add: r tick_clock_fields qs)
    have c2: "target_simulated_time t ?r =
              target_simulated_time (t - (nowResume - nowPause)) s" for t
      by (simp add: r target_simulated_time_tick clock)
    have c3: "target_simulated_time nowResume ?r = target_simulated_time nowPause s"
      by (simp add: c2)
    have c4: "onLog_calls (calls ?r) =
              onLog_calls (calls (tick (nowTick - (nowResume - nowPause)) s))"
      by (simp add: r tick_fields(3) [OF q(1)] tick_fields(3) [OF assms]
          onLog_calls_append onLog_emit_calls q(5,6,7,8) clock)
    have c5: "queue ?r = queue (tick (nowTick - (nowResume - nowPause)) s)"
      by (simp add: r tick_fields(1) [OF q(1)] tick_fields(1) [OF assms] q(5) clock)
    have c6: "emittedCount ?r = emittedCount (tick (nowTick - (nowResume - nowPause)) s)"
      by (simp add: r tick_fields(2) [OF q(1)] tick_fields(2) [OF assms] q(5,6) clock)
    show ?thesis
      using c1 c2 c3 c4 c5 c6 by blast
  qed
  show ?thesis
    using p(1,2) c0 g ex by blast
qed

text \<open>
  C6 as stated fails in two ways. In the code's arithmetic the shift is not the paused
  time: with \<open>startTime\<close> the double 0.1, a pause at the double 0.2 and a resume at 0.5,
  \<open>startTime\<close> moves by more than the paused time and the simulated clock at the resume
  is below the one at the pause. And the paused time is not all that \<^verbatim>\<open>start()\<close> leaves
  out of account: after \<^verbatim>\<open>setSpeed(2)\<close> during a pause at reading 50 the clock of the
  resumed example engine is 100 instead of 50, and the event due at 100 is emitted at
  once.
\<close>

theorem resume_counterexample:
  "status demo_playing_late = Playing \<and>
   startTime demo_playing_late = 3602879701896397 / 36028797018963968 \<and>
   round_double (1 / 5) = 3602879701896397 / 18014398509481984 \<and>
   startTime (start demo_db False (1 / 2) (1 / 2)
       (pause (round_double (1 / 5)) demo_playing_late)) - startTime demo_playing_late =
     10808639105689191 / 36028797018963968 \<and>
   1 / 2 - round_double (1 / 5) = 10808639105689190 / 36028797018963968 \<and>
   target_simulated_time (round_double (1 / 5)) demo_playing_late =
     3602879701896397 / 36028797018963968 \<and>
   target_simulated_time (1 / 2)
       (start demo_db False (1 / 2) (1 / 2)
         (pause (round_double (1 / 5)) demo_playing_late)) =
     900719925474099 / 9007199254740992 \<and>
   status demo_playing = Playing \<and>
   target_simulated_time 50 demo_playing = 50 \<and>
   onLog_calls (calls (tick 50 demo_playing)) = [mk_log 1 ''s'' 0] \<and>
   status (setSpeed 2 60 (pause 50 demo_playing)) = Paused \<and>
   startTime (start demo_db False 1050 1050 (setSpeed 2 60 (pause 50 demo_playing))) = 1000 \<and>
   target_simulated_time 1050
       (start demo_db False 1050 1050 (setSpeed 2 60 (pause 50 demo_playing))) = 100 \<and>
   onLog_calls (calls
       (start demo_db False 1050 1050 (setSpeed 2 60 (pause 50 demo_playing)))) =
     [mk_log 1 ''s'' 0, mk_log 2 ''s'' 100]"
  by code_simp

text \<open>
  C8. Invalid arguments change nothing and raise nothing: \<^verbatim>\<open>setSpeed(m)\<close> with
  \<open>m \<le> 0\<close> and \<^verbatim>\<open>seek(p)\<close> with \<open>p < 0\<close> or \<open>p > 1\<close> return the engine state they were
  given, every field included.
\<close>

theorem invalid_arguments_are_noops:
  "(m \<le> 0 \<longrightarrow> setSpeed m now s = s) \<and>
   (p < 0 \<or> 1 < p \<longrightarrow> seek db p nowPause nowAnchor nowStart nowTick s = s)"
  by (simp add: setSpeed_def seek_def)




section \<open>Transport controls and the store\<close>

lemma demo_playing_eq:
  "demo_playing =
     \<lparr>sessionId = ''s'', batchSize = 1000, refetchThreshold = 200, status = Playing,
      speed = 1, queue = [mk_log 2 ''s'' 100, mk_log 3 ''s'' 250], offset = 3,
      totalLogs = 3, emittedCount = 1, startTime = 0, simulationTimeStart = 0,
      pausedAt = 0, rafHandle = True, inFlight = None,
      calls = [OnStatusChange Playing, OnLog (mk_log 1 ''s'' 0), OnProgress (js_div 1 3)]\<rparr>"
  by code_simp


text \<open>
  C7. \<^verbatim>\<open>seek(p)\<close> followed at once by \<^verbatim>\<open>seek(p)\<close> should leave the cursor and the
  queue as the first call left them. On the playing example engine it does not: the
  first \<^verbatim>\<open>seek(0)\<close> fetches the batch (cursor 3, three events queued) and resumes, and
  the resuming tick starts a read-ahead; the second \<^verbatim>\<open>seek(0)\<close> finds that fetch in
  flight, so its own \<^verbatim>\<open>fetchNextBatch\<close> returns without fetching: cursor 0, queue
  empty.
\<close>

theorem seek_twice_while_playing_differs:
  "status demo_playing = Playing \<and>
   offset (seek demo_db 0 10 11 12 12 demo_playing) = 3 \<and>
   queue (seek demo_db 0 10 11 12 12 demo_playing) =
     [mk_log 1 ''s'' 0, mk_log 2 ''s'' 100, mk_log 3 ''s'' 250] \<and>
   isFetching (seek demo_db 0 10 11 12 12 demo_playing) \<and>
   offset (seek demo_db 0 20 21 22 22 (seek demo_db 0 10 11 12 12 demo_playing)) = 0 \<and>
   queue (seek demo_db 0 20 21 22 22 (seek demo_db 0 10 11 12 12 demo_playing)) = []"
  by code_simp

lemma settle_speed: "speed (fetchNextBatch_settle db s) = speed s"
  by (simp add: fetchNextBatch_settle_def Let_def split: option.split)

lemma start_speed: "speed (start db settled now nowTick s) = speed s"
  by (simp add: start_def start_playing_def tick_clock_fields setStatus_def
      fetchNextBatch_def settle_speed Let_def split: list.split)

text \<open>
  C9. \<^verbatim>\<open>stop()\<close> empties the queue, zeroes the cursor and the emitted count and sets
  the status to idle, and leaves the speed as it was: after \<^verbatim>\<open>setSpeed(m)\<close> with
  \<open>m > 0\<close> and \<^verbatim>\<open>stop()\<close>, \<^verbatim>\<open>getSpeed()\<close> is \<open>m\<close>, it still is after the next
  \<^verbatim>\<open>start()\<close>, and the simulated clock of that playback advances at rate \<open>m\<close>.
\<close>

theorem stop_resets_all_but_speed:
  "queue (stop s) = [] \<and> offset (stop s) = 0 \<and> emittedCount (stop s) = 0 \<and>
   status (stop s) = Idle \<and> speed (stop s) = speed s \<and>
   (0 < m \<longrightarrow>
      getSpeed (stop (setSpeed m now s)) = m \<and>
      getSpeed (start db settled nowStart nowTick (stop (setSpeed m now s))) = m \<and>
      (\<forall>t. target_simulated_time t
             (start db settled nowStart nowTick (stop (setSpeed m now s))) =
           dbl_add
             (simulationTimeStart (start db settled nowStart nowTick (stop (setSpeed m now s))))
             (dbl_mul
               (dbl_sub t (startTime (start db settled nowStart nowTick (stop (setSpeed m now s)))))
               m)))"
proof -
  have a: "queue (stop s) = [] \<and> offset (stop s) = 0 \<and> emittedCount (stop s) = 0 \<and>
           status (stop s) = Idle \<and> speed (stop s) = speed s"
    by (simp add: stop_def setStatus_def)
  have b: "speed (stop (setSpeed m now s)) = m" if "0 < m"
    using that by (simp add: stop_def setStatus_def setSpeed_def Let_def)
  show ?thesis
    using a b by (simp add: getSpeed_def start_speed target_simulated_time_def)
qed




lemma insort_key_ties:
  assumes "sorted_wrt (\<lambda>a b. f a = f b \<longrightarrow> g a < g b) ys"
    and "\<forall>y\<in>set ys. g x < (g y :: nat)"
  shows "sorted_wrt (\<lambda>a b. (f a :: real) = f b \<longrightarrow> g a < g b) (insort_key f x ys)"
  using assms by (induction ys) (auto simp add: set_insort_key)

lemma sort_key_ties:
  assumes "sorted_wrt (<) (map g xs)"
  shows "sorted_wrt (\<lambda>a b. (f a :: real) = f b \<longrightarrow> g a < (g b :: nat)) (sort_key f xs)"
  using assms
proof (induction xs)
  case Nil
  show ?case by simp
next
  case (Cons x xs)
  have "\<forall>y\<in>set (sort_key f xs). g x < g y"
    using Cons.prems by simp
  moreover have "sorted_wrt (\<lambda>a b. f a = f b \<longrightarrow> g a < g b) (sort_key f xs)"
    using Cons by simp
  ultimately show ?case
    by (simp add: insort_key_ties)
qed

lemma sorted_wrt_sql_limit_offset:
  assumes "sorted_wrt R xs"
  shows "sorted_wrt R (sql_limit_offset l ofs xs)"
proof -
  have d: "sorted_wrt R (drop (nat ofs) xs)"
    using assms by (rule sorted_wrt_drop)
  then have "sorted_wrt R (take (nat l) (drop (nat ofs) xs))"
    by (rule sorted_wrt_take)
  then show ?thesis
    using d by (simp add: sql_limit_offset_def Let_def)
qed

lemma fold_max_bounds:
  "(a::nat) \<le> fold max xs a \<and> (\<forall>x\<in>set xs. x \<le> fold max xs a)"
proof (induction xs arbitrary: a)
  case Nil
  show ?case by simp
next
  case (Cons x xs)
  show ?case
    using Cons [of "max x a"] by auto
qed

lemma insertLog_ids_increasing:
  assumes "sorted_wrt (<) (map log_id (system_logs db))"
  shows "sorted_wrt (<) (map log_id (system_logs (insertLog entry db)))"
proof -
  have "\<forall>x\<in>set (map log_id (system_logs db)). x < assigned_id (system_logs db)"
    using fold_max_bounds [of 0 "map log_id (system_logs db)"]
    by (auto simp add: assigned_id_def less_Suc_eq_le)
  then show ?thesis
    using assms by (simp add: insertLog_def sorted_wrt_append)
qed

lemma deleteSession_ids_increasing:
  assumes "sorted_wrt (<) (map log_id (system_logs db))"
  shows "sorted_wrt (<) (map log_id (system_logs (deleteSession sid db)))"
proof -
  have "sorted_wrt (\<lambda>a b. log_id a < log_id b) (system_logs db)"
    using assms by (simp only: sorted_wrt_map)
  then have "sorted_wrt (\<lambda>a b. log_id a < log_id b)
               (filter (\<lambda>r. session_id r \<noteq> sid) (system_logs db))"
    by (rule sorted_wrt_filter)
  then show ?thesis
    by (simp add: deleteSession_def sorted_wrt_map)
qed

lemma clearAllLogs_ids_increasing:
  "sorted_wrt (<) (map log_id (system_logs (clearAllLogs db)))"
  by (simp add: clearAllLogs_def)

lemma inserted_ids_increasing:
  "sorted_wrt (<) (map log_id (system_logs (foldr insertLog entries empty_db)))"
  by (induction entries) (simp_all add: empty_db_def insertLog_ids_increasing)

lemma subseq_sql_limit_offset: "subseq (sql_limit_offset l ofs xs) xs"
proof -
  have d: "subseq (drop (nat ofs) xs) xs"
    by (metis append_take_drop_id subseq_drop_many subseq_order.order_refl)
  have "subseq (take (nat l) (drop (nat ofs) xs)) (drop (nat ofs) xs)"
    by (metis append_take_drop_id subseq_rev_drop_many subseq_order.order_refl)
  then have "subseq (take (nat l) (drop (nat ofs) xs)) xs"
    using d by (rule subseq_order.order_trans)
  then show ?thesis
    using d by (simp add: sql_limit_offset_def Let_def)
qed

text \<open>
  C5. For every session, limit and offset, the events \<^verbatim>\<open>getLogsBySession\<close> returns
  are in non-decreasing timestamp order, and the events of any one timestamp come in
  the order of their insertion: by increasing id in every table whose ids grow with
  insertion, as in every table filled by \<^verbatim>\<open>insertLog\<close>.
\<close>

theorem getLogsBySession_ordered:
  "sorted (map timestamp (getLogsBySession db sid limit ofs)) \<and>
   subseq (filter (\<lambda>r. timestamp r = k) (getLogsBySession db sid limit ofs))
     (filter (\<lambda>r. timestamp r = k) (system_logs db)) \<and>
   (sorted_wrt (<) (map log_id (system_logs db)) \<longrightarrow>
      ties_by_id (getLogsBySession db sid limit ofs)) \<and>
   ties_by_id (getLogsBySession (foldr insertLog entries empty_db) sid limit ofs)"
proof -
  have ts: "sorted (map timestamp (getLogsBySession db sid limit ofs))"
  proof -
    have "sorted_wrt (\<lambda>a b. timestamp a \<le> timestamp b)
            (sql_order_by_timestamp (where_session sid (system_logs db)))"
      unfolding sql_order_by_timestamp_def
      using sorted_sort_key [of timestamp "where_session sid (system_logs db)"]
      by (simp only: sorted_wrt_map)
    then have "sorted_wrt (\<lambda>a b. timestamp a \<le> timestamp b)
                 (getLogsBySession db sid limit ofs)"
      unfolding getLogsBySession_def by (rule sorted_wrt_sql_limit_offset)
    then show ?thesis
      by (simp only: sorted_wrt_map)
  qed
  have ins: "subseq (filter (\<lambda>r. timestamp r = k) (getLogsBySession db sid limit ofs))
               (filter (\<lambda>r. timestamp r = k) (system_logs db))"
  proof -
    let ?F = "filter (\<lambda>r. timestamp r = k)"
    have "subseq (?F (getLogsBySession db sid limit ofs))
            (?F (sql_order_by_timestamp (where_session sid (system_logs db))))"
      unfolding getLogsBySession_def by (rule subseq_filter) (rule subseq_sql_limit_offset)
    also have "?F (sql_order_by_timestamp (where_session sid (system_logs db))) =
               ?F (where_session sid (system_logs db))"
      unfolding sql_order_by_timestamp_def by (rule sort_key_stable)
    also have "subseq (?F (where_session sid (system_logs db))) (?F (system_logs db))"
      unfolding where_session_def by (rule subseq_filter) (rule subseq_filter_left)
    finally show ?thesis .
  qed
  have ids: "ties_by_id (getLogsBySession d sid limit ofs)"
    if "sorted_wrt (<) (map log_id (system_logs d))" for d
  proof -
    have "sorted_wrt (\<lambda>a b. log_id a < log_id b) (system_logs d)"
      using that by (simp only: sorted_wrt_map)
    then have "sorted_wrt (\<lambda>a b. log_id a < log_id b) (where_session sid (system_logs d))"
      unfolding where_session_def by (rule sorted_wrt_filter)
    then have "sorted_wrt (<) (map log_id (where_session sid (system_logs d)))"
      by (simp only: sorted_wrt_map)
    then have "sorted_wrt (\<lambda>a b. timestamp a = timestamp b \<longrightarrow> log_id a < log_id b)
                 (sql_order_by_timestamp (where_session sid (system_logs d)))"
      unfolding sql_order_by_timestamp_def by (rule sort_key_ties)
    then show ?thesis
      unfolding ties_by_id_def getLogsBySession_def by (rule sorted_wrt_sql_limit_offset)
  qed
  show ?thesis
    using ts ins ids inserted_ids_increasing by blast
qed

theorem getLogsBySession_ordered_witness:
  "map log_id (system_logs tie_db) = [1, 2, 3] \<and>
   map timestamp (system_logs tie_db) = [7, 5, 5] \<and>
   sorted_wrt (<) (map log_id (system_logs tie_db)) \<and>
   map log_id (getLogsBySession tie_db ''s'' 2 0) = [2, 3] \<and>
   map timestamp (getLogsBySession tie_db ''s'' 2 0) = [5, 5] \<and>
   map log_id (getLogsBySession tie_db ''s'' (- 1) 1) = [3, 1] \<and>
   sorted (map timestamp (getLogsBySession tie_db ''s'' 2 0)) \<and>
   ties_by_id (getLogsBySession tie_db ''s'' 2 0)"
proof -
  have h: "sorted_wrt (<) (map log_id (system_logs tie_db))"
    by code_simp
  have v: "map log_id (system_logs tie_db) = [1, 2, 3]"
    "map timestamp (system_logs tie_db) = [7, 5, 5]"
    "map log_id (getLogsBySession tie_db ''s'' 2 0) = [2, 3]"
    "map timestamp (getLogsBySession tie_db ''s'' 2 0) = [5, 5]"
    "map log_id (getLogsBySession tie_db ''s'' (- 1) 1) = [3, 1]"
    by code_simp+
  show ?thesis
    using h v getLogsBySession_ordered [of tie_db "''s''" 2 0] by blast
qed

lemma seek_not_playing:
  assumes "status s \<noteq> Playing" and "0 \<le> p" and "p \<le> 1"
  shows "seek db p a b c d s =
     (let s2 = s\<lparr>offset := nat \<lfloor>dbl_mul (real (totalLogs s)) p\<rfloor>,
                  emittedCount := nat \<lfloor>dbl_mul (real (totalLogs s)) p\<rfloor>, queue := []\<rparr>;
          s3 = fetchNextBatch db s2;
          s4 = (case queue s3 of
                  [] \<Rightarrow> s3
                | first # _ \<Rightarrow> s3\<lparr>simulationTimeStart := timestamp first, startTime := b\<rparr>)
      in s4\<lparr>calls := calls s4 @ [OnProgress (Num p)]\<rparr>)"
  using assms by (simp add: seek_def pause_def Let_def not_less)

lemma seek_not_playing_fields:
  assumes "status s \<noteq> Playing" and "0 \<le> p" and "p \<le> 1"
  shows "status (seek db p a b c d s) = status s"
    and "totalLogs (seek db p a b c d s) = totalLogs s"
    and "inFlight (seek db p a b c d s) = inFlight s"
    and "sessionId (seek db p a b c d s) = sessionId s"
    and "batchSize (seek db p a b c d s) = batchSize s"
    and "emittedCount (seek db p a b c d s) = nat \<lfloor>dbl_mul (real (totalLogs s)) p\<rfloor>"
    and "onLog_calls (calls (seek db p a b c d s)) = onLog_calls (calls s)"
    and "queue (seek db p a b c d s) =
           (if isFetching s then []
            else getLogsBySession db (sessionId s) (batchSize s)
                   (int (nat \<lfloor>dbl_mul (real (totalLogs s)) p\<rfloor>)))"
    and "offset (seek db p a b c d s) =
           (if isFetching s then nat \<lfloor>dbl_mul (real (totalLogs s)) p\<rfloor>
            else nat \<lfloor>dbl_mul (real (totalLogs s)) p\<rfloor> +
                 length (getLogsBySession db (sessionId s) (batchSize s)
                   (int (nat \<lfloor>dbl_mul (real (totalLogs s)) p\<rfloor>))))"
  unfolding seek_not_playing [OF assms]
  by (simp_all add: fetchNextBatch_def isFetching_def Let_def onLog_calls_append
      split: list.split)

lemma seek_twice_not_playing:
  assumes "status s \<noteq> Playing" and "0 \<le> p" and "p \<le> 1"
  shows "offset (seek db p a' b' c' d' (seek db p a b c d s)) = offset (seek db p a b c d s) \<and>
         emittedCount (seek db p a' b' c' d' (seek db p a b c d s)) =
           emittedCount (seek db p a b c d s) \<and>
         queue (seek db p a' b' c' d' (seek db p a b c d s)) = queue (seek db p a b c d s) \<and>
         onLog_calls (calls (seek db p a' b' c' d' (seek db p a b c d s))) =
           onLog_calls (calls s)"
proof -
  let ?s1 = "seek db p a b c d s"
  have np: "status ?s1 \<noteq> Playing"
    using assms by (simp add: seek_not_playing_fields(1) [OF assms])
  show ?thesis
    by (simp add: seek_not_playing_fields [OF np assms(2,3)]
        seek_not_playing_fields [OF assms] isFetching_def)
qed




section \<open>A replay run to completion\<close>

lemma getLogsBySession_page:
  "getLogsBySession db sid l ofs = sql_limit_offset l ofs (session_events db sid)"
  by (simp add: getLogsBySession_def session_events_def)

lemma sql_limit_offset_split:
  "\<exists>more. drop (nat ofs) xs = sql_limit_offset l ofs xs @ more"
proof (cases "l < 0")
  case True
  then show ?thesis by (simp add: sql_limit_offset_def)
next
  case False
  have "drop (nat ofs) xs =
        take (nat l) (drop (nat ofs) xs) @ drop (nat l) (drop (nat ofs) xs)"
    by (simp only: append_take_drop_id)
  then show ?thesis
    using False unfolding sql_limit_offset_def Let_def by (simp only: if_False) blast
qed

lemma last_onProgress_emit_calls:
  "xs \<noteq> [] \<Longrightarrow>
   onProgress_calls (emit_calls e n xs) \<noteq> [] \<and>
   last (onProgress_calls (emit_calls e n xs)) = js_div (e + length xs) n"
proof (induction xs arbitrary: e)
  case Nil
  then show ?case by simp
next
  case (Cons x xs)
  show ?case
  proof (cases "xs = []")
    case True
    then show ?thesis by simp
  next
    case False
    then show ?thesis using Cons.IH [of "Suc e"] by simp
  qed
qed


lemma emit_ready_fields:
  "queue (emit_ready t s) = dropWhile (\<lambda>e. timestamp e \<le> t) (queue s)"
  "calls (emit_ready t s) =
     calls s @ emit_calls (emittedCount s) (totalLogs s)
       (takeWhile (\<lambda>e. timestamp e \<le> t) (queue s))"
  "emittedCount (emit_ready t s) =
     emittedCount s + length (takeWhile (\<lambda>e. timestamp e \<le> t) (queue s))"
  "offset (emit_ready t s) = offset s"
  "totalLogs (emit_ready t s) = totalLogs s"
  "inFlight (emit_ready t s) = inFlight s"
  "status (emit_ready t s) = status s"
  "sessionId (emit_ready t s) = sessionId s"
  "batchSize (emit_ready t s) = batchSize s"
  "refetchThreshold (emit_ready t s) = refetchThreshold s"
  by (simp_all add: emit_ready_char)

lemma replay_inv_emit_ready:
  assumes "replay_inv db c0 s" and "status s = Playing"
  shows "replay_inv db c0 (emit_ready t s)"
proof -
  let ?ready = "takeWhile (\<lambda>e. timestamp e \<le> t) (queue s)"
  let ?later = "dropWhile (\<lambda>e. timestamp e \<le> t) (queue s)"
  let ?s' = "emit_ready t s"
  from assms(1) obtain emitted rest where
    i: "onLog_calls (calls s) = onLog_calls c0 @ emitted"
      "session_events db (sessionId s) = emitted @ queue s @ rest"
      "emittedCount s = length emitted"
      "offset s = length emitted + length (queue s)"
      "totalLogs s = length (session_events db (sessionId s))"
      "inFlight s = None \<or> inFlight s = Some (offset s)"
      "emitted = [] \<or>
         (onProgress_calls (calls s) \<noteq> [] \<and>
          last (onProgress_calls (calls s)) = js_div (length emitted) (totalLogs s))"
    unfolding replay_inv_def by blast
  have q: "?ready @ ?later = queue s" by simp
  have len: "length ?ready + length ?later = length (queue s)"
    using arg_cong [OF q, of length] by (simp only: length_append)
  show ?thesis
    unfolding replay_inv_def emit_ready_fields
  proof (rule exI [of _ "emitted @ ?ready"], rule exI [of _ rest], intro conjI)
    show "onLog_calls (calls s @ emit_calls (emittedCount s) (totalLogs s) ?ready) =
          onLog_calls c0 @ emitted @ ?ready"
      by (simp add: onLog_calls_append onLog_emit_calls i(1))
    show "session_events db (sessionId s) = (emitted @ ?ready) @ ?later @ rest"
      using i(2) q by (metis append.assoc)
    show "emittedCount s + length ?ready = length (emitted @ ?ready)"
      by (simp add: i(3))
    show "offset s = length (emitted @ ?ready) + length ?later"
      using i(4) len by simp
    show "totalLogs s = length (session_events db (sessionId s))"
      by (rule i(5))
    show "inFlight s = None \<or> inFlight s = Some (offset s)"
      by (rule i(6))
    show "status s = Playing \<or> status s = Ended \<and> ?later = [] \<and> rest = []"
      using assms(2) by (rule disjI1)
    show "emitted @ ?ready = [] \<or>
      onProgress_calls (calls s @ emit_calls (emittedCount s) (totalLogs s) ?ready) \<noteq> [] \<and>
      last (onProgress_calls (calls s @ emit_calls (emittedCount s) (totalLogs s) ?ready)) =
        js_div (length (emitted @ ?ready)) (totalLogs s)"
    proof (cases "?ready = []")
      case True
      then show ?thesis using i(7) by simp
    next
      case False
      then show ?thesis
        using last_onProgress_emit_calls [OF False, of "emittedCount s" "totalLogs s"]
        by (simp add: onProgress_calls_append i(3))
    qed
  qed
qed

lemma replay_inv_raf: "replay_inv db c0 (s\<lparr>rafHandle := b\<rparr>) = replay_inv db c0 s"
  by (simp add: replay_inv_def)

lemma replay_inv_call:
  assumes "replay_inv db c0 s"
  shows "replay_inv db c0 (fetchNextBatch_call s)"
proof (cases "isFetching s")
  case True
  then show ?thesis using assms by (simp add: fetchNextBatch_call_def)
next
  case False
  then have "fetchNextBatch_call s = s\<lparr>inFlight := Some (offset s)\<rparr>"
    by (simp add: fetchNextBatch_call_def)
  moreover have "replay_inv db c0 (s\<lparr>inFlight := Some (offset s)\<rparr>)"
    using assms unfolding replay_inv_def by simp blast
  ultimately show ?thesis by simp
qed

lemma replay_inv_end:
  assumes "replay_inv db c0 s" and "queue s = []" and "totalLogs s \<le> offset s"
  shows "replay_inv db c0 (setStatus Ended s)"
proof -
  from assms(1) obtain emitted rest where
    i: "onLog_calls (calls s) = onLog_calls c0 @ emitted"
      "session_events db (sessionId s) = emitted @ queue s @ rest"
      "emittedCount s = length emitted"
      "offset s = length emitted + length (queue s)"
      "totalLogs s = length (session_events db (sessionId s))"
      "inFlight s = None \<or> inFlight s = Some (offset s)"
      "emitted = [] \<or>
         (onProgress_calls (calls s) \<noteq> [] \<and>
          last (onProgress_calls (calls s)) = js_div (length emitted) (totalLogs s))"
    unfolding replay_inv_def by blast
  have "length (session_events db (sessionId s)) = length emitted + length rest"
    using i(2) assms(2) by simp
  then have rest: "rest = []"
    using assms(2,3) i(4,5) by simp
  show ?thesis
    unfolding replay_inv_def
    apply (rule exI [of _ emitted], rule exI [of _ rest])
    using i rest assms(2)
    by (simp add: setStatus_def onLog_calls_append onProgress_calls_append)
qed

lemma replay_inv_tick:
  assumes "replay_inv db c0 s"
  shows "replay_inv db c0 (tick now s)"
proof (cases "status s = Playing")
  case False
  then show ?thesis using assms by (simp add: tick_not_playing)
next
  case True
  let ?s1 = "emit_ready (target_simulated_time now s) s"
  let ?s2 = "if int (length (queue ?s1)) < refetchThreshold ?s1 \<and> \<not> isFetching ?s1
             then fetchNextBatch_call ?s1 else ?s1"
  have 1: "replay_inv db c0 ?s1"
    using assms True by (rule replay_inv_emit_ready)
  have 2: "replay_inv db c0 ?s2"
    using 1 by (simp add: replay_inv_call)
  have t: "tick now s =
           (if queue ?s2 = [] \<and> totalLogs ?s2 \<le> offset ?s2
            then setStatus Ended ?s2 else ?s2\<lparr>rafHandle := True\<rparr>)"
    using True by (simp only: tick_playing Let_def)
  show ?thesis
  proof (cases "queue ?s2 = [] \<and> totalLogs ?s2 \<le> offset ?s2")
    case True
    have e: "tick now s = setStatus Ended ?s2"
      unfolding t using True by (rule if_P)
    have "replay_inv db c0 (setStatus Ended ?s2)"
      using 2 True by (blast intro: replay_inv_end)
    then show ?thesis unfolding e .
  next
    case False
    have e: "tick now s = ?s2\<lparr>rafHandle := True\<rparr>"
      unfolding t using False by (rule if_not_P)
    have "replay_inv db c0 (?s2\<lparr>rafHandle := True\<rparr>)"
      using 2 by (simp only: replay_inv_raf)
    then show ?thesis unfolding e .
  qed
qed

lemma replay_inv_settle:
  assumes "replay_inv db c0 s"
  shows "replay_inv db c0 (fetchNextBatch_settle db s)"
proof (cases "inFlight s")
  case None
  then show ?thesis using assms by (simp add: fetchNextBatch_settle_def)
next
  case (Some ofs)
  from assms obtain emitted rest where
    i: "onLog_calls (calls s) = onLog_calls c0 @ emitted"
      "session_events db (sessionId s) = emitted @ queue s @ rest"
      "emittedCount s = length emitted"
      "offset s = length emitted + length (queue s)"
      "totalLogs s = length (session_events db (sessionId s))"
      "inFlight s = None \<or> inFlight s = Some (offset s)"
      "status s = Playing \<or> (status s = Ended \<and> queue s = [] \<and> rest = [])"
      "emitted = [] \<or>
         (onProgress_calls (calls s) \<noteq> [] \<and>
          last (onProgress_calls (calls s)) = js_div (length emitted) (totalLogs s))"
    unfolding replay_inv_def by blast
  let ?logs = "getLogsBySession db (sessionId s) (batchSize s) (int ofs)"
  have ofs: "ofs = offset s" using Some i(6) by simp
  have "drop (nat (int ofs)) (session_events db (sessionId s)) = rest"
    using i(2,4) ofs by simp
  then obtain more where more: "rest = ?logs @ more"
    using sql_limit_offset_split [of "int ofs" "session_events db (sessionId s)" "batchSize s"]
    by (auto simp add: getLogsBySession_page)
  have s': "fetchNextBatch_settle db s =
            s\<lparr>queue := queue s @ ?logs, offset := offset s + length ?logs, inFlight := None\<rparr>"
    using Some by (simp add: fetchNextBatch_settle_def Let_def)
  have st: "status s = Playing \<or> (status s = Ended \<and> queue s @ ?logs = [] \<and> more = [])"
    using i(7) more by auto
  show ?thesis
    unfolding replay_inv_def s'
    apply (rule exI [of _ emitted], rule exI [of _ more])
    using i(1,2,3,4,5,8) more st
    by simp
qed

lemma replay_inv_run:
  "replay_inv db c0 s \<Longrightarrow> replay_inv db c0 (run db steps s)"
  by (induction db steps s rule: run.induct)
    (simp_all add: replay_inv_tick replay_inv_settle)

lemma length_session_events: "length (session_events db sid) = getLogCount db sid"
  by (simp add: session_events_def getLogCount_def sql_order_by_timestamp_def)

lemma settle_calls: "calls (fetchNextBatch_settle db s) = calls s"
  by (simp add: fetchNextBatch_settle_def Let_def split: option.split)

lemma start_idle_empty:
  assumes "status s = Idle" and "getLogCount db (sessionId s) = 0"
  shows "status (start db settled now nowTick s) = Ended"
    and "calls (start db settled now nowTick s) = calls s @ [OnStatusChange Ended]"
  using assms by (simp_all add: start_def Let_def setStatus_def settle_calls)

lemma settle_nothing: "\<not> isFetching s \<Longrightarrow> fetchNextBatch_settle db s = s"
  by (simp add: fetchNextBatch_settle_def isFetching_def)

lemma replay_inv_start:
  assumes "status s = Idle" and "\<not> isFetching s" and "batchSize s \<noteq> 0"
    and "0 < getLogCount db (sessionId s)"
  shows "replay_inv db (calls s) (start db settled now nowTick s)"
proof -
  let ?E = "session_events db (sessionId s)"
  let ?logs = "getLogsBySession db (sessionId s) (batchSize s) 0"
  let ?s0 = "s\<lparr>offset := 0, queue := [], emittedCount := 0\<rparr>"
  have n: "length ?E = getLogCount db (sessionId s)"
    by (rule length_session_events)
  then have ne: "?E \<noteq> []" using assms(4) by auto
  have page: "?logs = sql_limit_offset (batchSize s) 0 ?E"
    by (rule getLogsBySession_page)
  have "?logs \<noteq> []"
  proof (cases "batchSize s < 0")
    case True
    then show ?thesis using ne by (simp add: page sql_limit_offset_def)
  next
    case False
    then have "0 < nat (batchSize s)" using assms(3) by simp
    then show ?thesis using ne False by (simp add: page sql_limit_offset_def)
  qed
  then obtain first others where logs: "?logs = first # others"
    by (cases ?logs) auto
  obtain more where more: "?E = ?logs @ more"
    using sql_limit_offset_split [of 0 ?E "batchSize s"] by (auto simp add: page)
  have w: "(if settled then fetchNextBatch_settle db ?s0 else ?s0) = ?s0"
    using assms(2) by (simp add: settle_nothing isFetching_def)
  let ?s3 = "setStatus Playing
     (s\<lparr>emittedCount := 0, totalLogs := getLogCount db (sessionId s),
         queue := ?logs, offset := length ?logs,
         simulationTimeStart := timestamp first, startTime := now\<rparr>)"
  have st: "start db settled now nowTick s = tick nowTick ?s3"
    unfolding start_def Let_def w
    using assms(1,2,4) logs
    by (simp add: start_playing_def fetchNextBatch_def Let_def setStatus_def isFetching_def)
  have "replay_inv db (calls s) ?s3"
    unfolding replay_inv_def
    apply (rule exI [of _ "[]"], rule exI [of _ more])
    using more n assms(2)
    by (simp add: setStatus_def onLog_calls_append isFetching_def)
  then show ?thesis
    unfolding st by (rule replay_inv_tick)
qed

lemma replay_inv_ended:
  assumes "replay_inv db c0 s" and "status s = Ended"
  shows "onLog_calls (calls s) = onLog_calls c0 @ session_events db (sessionId s)"
    and "session_events db (sessionId s) \<noteq> [] \<Longrightarrow> last (onProgress_calls (calls s)) = Num 1"
proof -
  from assms obtain emitted where
    i: "onLog_calls (calls s) = onLog_calls c0 @ emitted"
      "session_events db (sessionId s) = emitted"
      "totalLogs s = length (session_events db (sessionId s))"
      "emitted = [] \<or>
         (onProgress_calls (calls s) \<noteq> [] \<and>
          last (onProgress_calls (calls s)) = js_div (length emitted) (totalLogs s))"
    unfolding replay_inv_def by auto
  show "onLog_calls (calls s) = onLog_calls c0 @ session_events db (sessionId s)"
    using i(1,2) by simp
  show "last (onProgress_calls (calls s)) = Num 1"
    if "session_events db (sessionId s) \<noteq> []"
    using that i(2,3,4) by (simp add: js_div_def dbl_div_def)
qed

lemma run_sessionId: "sessionId (run db steps s) = sessionId s"
proof (induction db steps s rule: run.induct)
  case (1 db s)
  show ?case by simp
next
  case (2 db now es s)
  have "sessionId (tick now s) = sessionId s"
    by (cases "status s = Playing")
      (simp_all add: tick_playing tick_not_playing Let_def emit_ready_fields
        fetchNextBatch_call_def setStatus_def)
  then show ?case using 2 by simp
next
  case (3 db es s)
  have "sessionId (fetchNextBatch_settle db s) = sessionId s"
    by (simp add: fetchNextBatch_settle_def Let_def split: option.split)
  then show ?case using 3 by simp
qed

lemma settle_sessionId: "sessionId (fetchNextBatch_settle db s) = sessionId s"
  by (simp add: fetchNextBatch_settle_def Let_def split: option.split)

lemma start_sessionId: "sessionId (start db settled now nowTick s) = sessionId s"
proof -
  have t: "sessionId (tick n x) = sessionId x" for n x
    using run_sessionId [of db "[Tick n]" x] by simp
  show ?thesis
    by (simp add: start_def start_playing_def t setStatus_def fetchNextBatch_def
        settle_sessionId Let_def split: list.split)
qed

text \<open>A newly constructed engine with the default options meets the conditions below.\<close>

lemma new_ReplayEngine_ready:
  "status (new_ReplayEngine sid None None) = Idle \<and>
   \<not> isFetching (new_ReplayEngine sid None None) \<and>
   batchSize (new_ReplayEngine sid None None) = 1000 \<and>
   refetchThreshold (new_ReplayEngine sid None None) = 200 \<and>
   speed (new_ReplayEngine sid None None) = 1 \<and>
   sessionId (new_ReplayEngine sid None None) = sid"
  by (simp add: new_ReplayEngine_def isFetching_def)

text \<open>
  From an idle engine with no fetch in flight and a batch size other than 0 the replay
  is right: with no event in the session \<^verbatim>\<open>start()\<close> goes straight to ended, and
  otherwise, whenever \<^verbatim>\<open>start()\<close> followed by any sequence of ticks and fetch
  completions has reached the ended status, \<^verbatim>\<open>onLog\<close> has been called since the start
  exactly once for each event of the session, in the stored order, and the last value
  given to \<^verbatim>\<open>onProgress\<close> is 1.
\<close>

lemma clean_replay_emits_session_in_order:
  assumes "status s = Idle"
  shows "(getLogCount db (sessionId s) = 0 \<longrightarrow>
           status (start db settled now nowTick s) = Ended \<and>
           calls (start db settled now nowTick s) = calls s @ [OnStatusChange Ended]) \<and>
         (\<not> isFetching s \<and> batchSize s \<noteq> 0 \<and> 0 < getLogCount db (sessionId s) \<and>
          status (run db steps (start db settled now nowTick s)) = Ended \<longrightarrow>
           onLog_calls (calls (run db steps (start db settled now nowTick s))) =
             onLog_calls (calls s) @ session_events db (sessionId s) \<and>
           length (session_events db (sessionId s)) = getLogCount db (sessionId s) \<and>
           last (onProgress_calls (calls (run db steps (start db settled now nowTick s)))) =
             Num 1)"
proof (intro conjI impI)
  assume "getLogCount db (sessionId s) = 0"
  then show "status (start db settled now nowTick s) = Ended"
    and "calls (start db settled now nowTick s) = calls s @ [OnStatusChange Ended]"
    using assms by (simp_all only: start_idle_empty)
next
  let ?end = "run db steps (start db settled now nowTick s)"
  assume a: "\<not> isFetching s \<and> batchSize s \<noteq> 0 \<and> 0 < getLogCount db (sessionId s) \<and>
             status ?end = Ended"
  have n: "length (session_events db (sessionId s)) = getLogCount db (sessionId s)"
    by (rule length_session_events)
  have "replay_inv db (calls s) (start db settled now nowTick s)"
    using a assms by (blast intro: replay_inv_start)
  then have inv: "replay_inv db (calls s) ?end"
    by (rule replay_inv_run)
  have sid: "sessionId ?end = sessionId s"
    by (simp only: run_sessionId start_sessionId)
  have ended: "status ?end = Ended" using a by simp
  show "onLog_calls (calls ?end) = onLog_calls (calls s) @ session_events db (sessionId s)"
    using replay_inv_ended(1) [OF inv ended] by (simp only: sid)
  show "length (session_events db (sessionId s)) = getLogCount db (sessionId s)"
    by (rule n)
  have "session_events db (sessionId ?end) \<noteq> []"
    unfolding sid using n a by auto
  then show "last (onProgress_calls (calls ?end)) = Num 1"
    by (rule replay_inv_ended(2) [OF inv ended])
qed

text \<open>
  C1. A replay of a session of \<open>N > 0\<close> events, run from idle to ended, should call
  \<^verbatim>\<open>onLog\<close> once per event, in stored order. It does not when the engine was stopped
  with a read-ahead in flight. The example engine reads a session of four events two
  at a time; it is started and stopped at once, and then started again. If the old
  fetch has no answer yet when \<^verbatim>\<open>start()\<close> makes its own fetch, that fetch returns
  without fetching and the replay ends with no event emitted. If the answer comes while
  \<^verbatim>\<open>start()\<close> waits for the count, the rows of the old fetch are queued and the cursor
  moves past them: events 3 and 4 are emitted twice, events 1 and 2 never. With a
  batch size of 0 the first \<^verbatim>\<open>start()\<close> of a new engine ends with no event emitted.
\<close>

theorem restart_with_fetch_in_flight_breaks_replay:
  "status stopped_early = Idle \<and> isFetching stopped_early \<and>
   getLogCount paged_db (sessionId stopped_early) = 4 \<and>
   session_events paged_db (sessionId stopped_early) =
     [mk_log 1 ''s'' 0, mk_log 2 ''s'' 100, mk_log 3 ''s'' 200, mk_log 4 ''s'' 300] \<and>
   status (start paged_db False 10 10 stopped_early) = Ended \<and>
   calls (start paged_db False 10 10 stopped_early) =
     calls stopped_early @ [OnStatusChange Ended] \<and>
   status (run paged_db [Tick 1000] (start paged_db True 10 10 stopped_early)) = Ended \<and>
   onLog_calls (calls (run paged_db [Tick 1000] (start paged_db True 10 10 stopped_early))) =
     onLog_calls (calls stopped_early) @
     [mk_log 3 ''s'' 200, mk_log 4 ''s'' 300, mk_log 3 ''s'' 200, mk_log 4 ''s'' 300] \<and>
   getLogCount demo_db ''s'' = 3 \<and>
   status (start demo_db False 0 0 (new_ReplayEngine ''s'' (Some 0) None)) = Ended \<and>
   calls (start demo_db False 0 0 (new_ReplayEngine ''s'' (Some 0) None)) =
     [OnStatusChange Ended]"
  by code_simp


section \<open>The theorems at the example session\<close>

theorem tick_emits_ready_prefix_witness:
  "status demo_playing = Playing \<and>
   target_simulated_time 150 demo_playing = 150 \<and>
   onLog_calls (calls (tick 150 demo_playing)) = [mk_log 1 ''s'' 0, mk_log 2 ''s'' 100] \<and>
   queue (tick 150 demo_playing) = [mk_log 3 ''s'' 250] \<and>
   emittedCount (tick 150 demo_playing) = 2 \<and>
   onProgress_calls (calls (tick 150 demo_playing)) = [js_div 1 3, js_div 2 3]"
proof -
  have h: "status demo_playing = Playing"
    by (simp add: demo_playing_eq)
  have v: "target_simulated_time 150 demo_playing = 150"
    "onLog_calls (calls (tick 150 demo_playing)) = [mk_log 1 ''s'' 0, mk_log 2 ''s'' 100]"
    "queue (tick 150 demo_playing) = [mk_log 3 ''s'' 250]"
    "emittedCount (tick 150 demo_playing) = 2"
    "onProgress_calls (calls (tick 150 demo_playing)) = [js_div 1 3, js_div 2 3]"
    by code_simp+
  show ?thesis
    using h v tick_emits_ready_prefix [OF h, of 150] by simp
qed

theorem setSpeed_keeps_position_when_exact_witness:
  "status demo_playing = Playing \<and> (0::real) < 2 \<and>
   representable (50 - startTime demo_playing) \<and>
   representable ((50 - startTime demo_playing) * speed demo_playing) \<and>
   representable ((50 - startTime demo_playing) * speed demo_playing / 2) \<and>
   representable (50 - (50 - startTime demo_playing) * speed demo_playing / 2) \<and>
   startTime (setSpeed 2 50 demo_playing) = 25 \<and>
   speed (setSpeed 2 50 demo_playing) = 2 \<and>
   target_simulated_time 50 demo_playing = 50 \<and>
   target_simulated_time 50 (setSpeed 2 50 demo_playing) = 50 \<and>
   target_simulated_time 50 demo_playing \<le>
     target_simulated_time 60 (setSpeed 2 50 demo_playing)"
proof -
  have h: "status demo_playing = Playing"
    by (simp add: demo_playing_eq)
  have m: "(0::real) < 2" by simp
  have r: "representable (50 - startTime demo_playing)"
    "representable ((50 - startTime demo_playing) * speed demo_playing)"
    "representable ((50 - startTime demo_playing) * speed demo_playing / 2)"
    "representable (50 - (50 - startTime demo_playing) * speed demo_playing / 2)"
    by code_simp+
  have v: "startTime (setSpeed 2 50 demo_playing) = 25"
    "target_simulated_time 50 demo_playing = 50"
    by code_simp+
  have l: "(50::real) \<le> 60" by simp
  show ?thesis
    using h m r v l setSpeed_keeps_position_when_exact [OF h m, of 50]
    by simp
qed

theorem resume_shifts_start_by_paused_time_witness:
  "status demo_playing = Playing \<and>
   status (pause 50 demo_playing) = Paused \<and>
   pausedAt (pause 50 demo_playing) = 50 \<and>
   representable (1050 - 50) \<and>
   representable (startTime demo_playing + (1050 - 50)) \<and>
   startTime (start demo_db False 1050 1050 (pause 50 demo_playing)) =
     startTime demo_playing + (1050 - 50) \<and>
   target_simulated_time 50 demo_playing = 50 \<and>
   target_simulated_time 1050 (start demo_db False 1050 1050 (pause 50 demo_playing)) = 50 \<and>
   onLog_calls (calls (start demo_db False 1050 1050 (pause 50 demo_playing))) =
     [mk_log 1 ''s'' 0]"
proof -
  have h: "status demo_playing = Playing"
    by (simp add: demo_playing_eq)
  have r: "representable (1050 - 50)"
    "representable (startTime demo_playing + (1050 - 50))"
    by code_simp+
  have t: "onLog_calls (calls (tick (1050 - (1050 - 50)) demo_playing)) = [mk_log 1 ''s'' 0]"
    "target_simulated_time 50 demo_playing = 50"
    by code_simp+
  show ?thesis
    using h r t
      resume_shifts_start_by_paused_time
        [OF h, of 50 demo_db False 1050 1050 "pause 50 demo_playing"]
    by simp
qed

theorem invalid_arguments_are_noops_witness:
  "(- 1 :: real) \<le> 0 \<and> setSpeed (- 1) 50 demo_playing = demo_playing \<and>
   (1 :: real) < 2 \<and> seek demo_db 2 50 51 52 52 demo_playing = demo_playing"
  using invalid_arguments_are_noops [of "- 1" 50 demo_playing 2 demo_db 50 51 52 52]
  by simp

theorem stop_resets_all_but_speed_witness:
  "(0::real) < 2 \<and>
   getSpeed (stop (setSpeed 2 50 demo_playing)) = 2 \<and>
   getSpeed (start demo_db False 60 60 (stop (setSpeed 2 50 demo_playing))) = 2 \<and>
   status (stop demo_playing) = Idle \<and> queue (stop demo_playing) = []"
  using stop_resets_all_but_speed [where s = demo_playing and m = 2 and now = 50 and db = demo_db
      and settled = False and nowStart = 60 and nowTick = 60]
  by simp


end
